theory Spec2Isabelle
  imports Main "HOL-Library.Word" "HOL-Library.List_Lexorder"
begin

unbundle bit_operations_syntax

section \<open>Packed transitions (serialize.go)\<close>

type_synonym byte = "8 word"

text \<open>\<^verbatim>\<open>type transition uint32\<close>: 8 bits of trigger, 1 terminal bit, 23 bits of state id.\<close>

type_synonym transition = "32 word"

text \<open>\<^verbatim>\<open>type state []transition\<close> and \<^verbatim>\<open>type Recognizer []state\<close>.\<close>

type_synonym state = "transition list"

type_synonym Recognizer = "state list"

text \<open>
  \<^verbatim>\<open>NewTransition(trigger byte, toStateId int, isTerminal bool)\<close>. Go's \<^verbatim>\<open>int\<close> is
  modelled as \<^typ>\<open>int\<close>; the conversion \<^verbatim>\<open>uint32(toStateId)\<close> keeps the low 32 bits,
  which is \<^const>\<open>word_of_int\<close>.
\<close>

definition NewTransition :: "byte \<Rightarrow> int \<Rightarrow> bool \<Rightarrow> transition" where
  "NewTransition trigger toStateId isTerminal =
     (let t0 = push_bit 24 (ucast trigger :: 32 word);
          t1 = (if isTerminal then t0 OR 0x800000 else t0)
      in t1 OR ((word_of_int toStateId :: 32 word) AND 0x7fffff))"

definition Trigger :: "transition \<Rightarrow> byte" where
  "Trigger t = ucast (drop_bit 24 t)"

definition ToState :: "transition \<Rightarrow> int" where
  "ToState t = uint (t AND 0x7fffff)"

definition IsTerminal :: "transition \<Rightarrow> bool" where
  "IsTerminal t = (t AND 0x800000 \<noteq> 0)"

text \<open>\<^verbatim>\<open>state.IsEmpty\<close>.\<close>

definition IsEmpty :: "state \<Rightarrow> bool" where
  "IsEmpty st = (length st = 0)"

section \<open>Run-time failures\<close>

text \<open>
  Every \<^verbatim>\<open>panic\<close> of the package is a value: the two explicit panics of
  \<^verbatim>\<open>FromChannel\<close>, and the run-time panics of Go for an index or a slice bound out
  of range and for \<^verbatim>\<open>make\<close> with a negative length.
\<close>

datatype panic =
    OutOfOrder "byte list" "byte list"
  | UnexpectedStartID int int
  | IndexOutOfRange
  | SliceBoundsOutOfRange
  | MakeSliceLenOutOfRange

section \<open>Library functions used by the package\<close>

text \<open>
  \<^verbatim>\<open>sort.Search(n, f)\<close> of the Go standard library: the binary search
  \<^verbatim>\<open>i, j := 0, n; for i < j { h := int(uint(i+j) >> 1); if !f(h) { i = h + 1 } else { j = h } }; return i\<close>.
\<close>

function Search_loop :: "(nat \<Rightarrow> bool) \<Rightarrow> nat \<Rightarrow> nat \<Rightarrow> nat" where
  "Search_loop f i j =
     (if i < j then
        (let h = (i + j) div 2
         in if \<not> f h then Search_loop f (h + 1) j else Search_loop f i h)
      else i)"
  by pat_completeness auto
termination
  by (relation "measure (\<lambda>(f, i, j). j - i)") auto

declare Search_loop.simps [simp del]

definition Search :: "nat \<Rightarrow> (nat \<Rightarrow> bool) \<Rightarrow> nat" where
  "Search n f = Search_loop f 0 n"

text \<open>
  \<^verbatim>\<open>bytes.Compare(a, b)\<close>: the three-way lexicographic comparison of two byte
  slices, bytes compared as unsigned values, a proper prefix being smaller.
\<close>

fun bytes_Compare :: "byte list \<Rightarrow> byte list \<Rightarrow> int" where
  "bytes_Compare [] [] = 0"
| "bytes_Compare [] (y # ys) = - 1"
| "bytes_Compare (x # xs) [] = 1"
| "bytes_Compare (x # xs) (y # ys) =
     (if x < y then - 1 else if y < x then 1 else bytes_Compare xs ys)"

text \<open>
  \<^verbatim>\<open>binary.BigEndian\<close>: a 32-bit value is written as four bytes, most significant
  first, and read back the same way.
\<close>

definition put_uint32 :: "32 word \<Rightarrow> byte list" where
  "put_uint32 w =
     [ucast (drop_bit 24 w), ucast (drop_bit 16 w), ucast (drop_bit 8 w), ucast w]"

definition get_uint32 :: "byte list \<Rightarrow> 32 word" where
  "get_uint32 bs =
     (ucast (bs ! 3) :: 32 word) OR push_bit 8 (ucast (bs ! 2)) OR
     push_bit 16 (ucast (bs ! 1)) OR push_bit 24 (ucast (bs ! 0))"

text \<open>
  \<^verbatim>\<open>io.ReadFull\<close> on a reader holding the bytes \<open>r\<close> (a \<^verbatim>\<open>bytes.Buffer\<close>, a
  file): \<open>n\<close> bytes are consumed when there are that many; a reader already at its
  end gives \<^verbatim>\<open>io.EOF\<close>, one that ends in the middle gives
  \<^verbatim>\<open>io.ErrUnexpectedEOF\<close>. \<^verbatim>\<open>binary.Read\<close> returns these errors unchanged.
\<close>

datatype io_error = EOF | ErrUnexpectedEOF

definition ReadFull :: "nat \<Rightarrow> byte list \<Rightarrow> io_error + (byte list \<times> byte list)" where
  "ReadFull n r =
     (if n \<le> length r then Inr (take n r, drop n r)
      else if r = [] then Inl EOF
      else Inl ErrUnexpectedEOF)"

section \<open>States (serialize.go)\<close>

text \<open>
  \<^verbatim>\<open>state.Fingerprint\<close> writes every transition big-endian into a SHA-1 hash and
  returns the base64 text of the digest. The digest followed by the encoding is the
  parameter \<open>H\<close>, a function of the bytes written.
\<close>

definition Fingerprint :: "(byte list \<Rightarrow> 'k) \<Rightarrow> state \<Rightarrow> 'k" where
  "Fingerprint H st = H (concat (map put_uint32 st))"

text \<open>\<^verbatim>\<open>state.IndexForTrigger\<close>: \<^verbatim>\<open>len(s)\<close> when the trigger is not found.\<close>

definition IndexForTrigger :: "state \<Rightarrow> byte \<Rightarrow> nat" where
  "IndexForTrigger st v =
     (let i = Search (length st) (\<lambda>x. v \<le> Trigger (st ! x))
      in if i < length st \<and> Trigger (st ! i) = v then i else length st)"

text \<open>
  \<^verbatim>\<open>state.AddTransition\<close>: nothing when the transition is already there; otherwise it
  is appended and the tail from the insertion point is sorted (\<^verbatim>\<open>sort.Sort\<close> with
  \<^verbatim>\<open>Less\<close> the order of the packed values).
\<close>

definition AddTransition :: "state \<Rightarrow> transition \<Rightarrow> state" where
  "AddTransition st t =
     (let i = Search (length st) (\<lambda>x. t \<le> st ! x)
      in if i < length st \<and> st ! i = t then st
         else take i (st @ [t]) @ sort (drop i (st @ [t])))"

section \<open>The builder \<^verbatim>\<open>FromChannel\<close>\<close>

text \<open>
  The local variables of \<^verbatim>\<open>FromChannel\<close> that its closures share. The values of
  \<^verbatim>\<open>states\<close> are indices into \<^verbatim>\<open>self\<close>.
\<close>

record 'k builder =
  self :: Recognizer
  states :: "'k \<rightharpoonup> nat"
  terminals :: "bool list"
  larvae :: "state list"
  prevValue :: "byte list"

definition init_builder :: "'k builder" where
  "init_builder =
     \<lparr>self = [], states = Map.empty, terminals = [False], larvae = [[]], prevValue = []\<rparr>"

text \<open>The closure \<^verbatim>\<open>makeState\<close>: find or create the state, return its id.\<close>

definition makeState :: "(byte list \<Rightarrow> 'k) \<Rightarrow> state \<Rightarrow> 'k builder \<Rightarrow> nat \<times> 'k builder" where
  "makeState H st b =
     (let fprint = Fingerprint H st
      in case states b fprint of
           Some i \<Rightarrow> (i, b)
         | None \<Rightarrow>
             (let i = length (self b)
              in (i, b\<lparr>self := self b @ [st], states := (states b)(fprint \<mapsto> i)\<rparr>)))"

text \<open>The closure \<^verbatim>\<open>commonPrefixLen\<close>.\<close>

fun commonPrefixLen :: "byte list \<Rightarrow> byte list \<Rightarrow> nat" where
  "commonPrefixLen (x # xs) (y # ys) = (if x = y then Suc (commonPrefixLen xs ys) else 0)"
| "commonPrefixLen xs ys = 0"

text \<open>
  The closure \<^verbatim>\<open>makeSuffixStates(p)\<close>: the loop
  \<^verbatim>\<open>for i := len(prevValue); i > p; i--\<close>, here from the value \<open>i\<close> of its counter.
\<close>

fun makeSuffixStates_from :: "(byte list \<Rightarrow> 'k) \<Rightarrow> nat \<Rightarrow> nat \<Rightarrow> 'k builder \<Rightarrow> panic + 'k builder" where
  "makeSuffixStates_from H p 0 b = Inr b"
| "makeSuffixStates_from H p (Suc j) b =
     (if p < Suc j then
        (if Suc j < length (larvae b) \<and> Suc j < length (terminals b) \<and> j < length (prevValue b) then
           (let (i, b1) = makeState H (larvae b ! Suc j) b;
                t = NewTransition (prevValue b1 ! j) (int i) (terminals b1 ! Suc j)
            in makeSuffixStates_from H p j
                 (b1\<lparr>larvae := (larvae b1)[j := AddTransition (larvae b1 ! j) t]\<rparr>))
         else Inl IndexOutOfRange)
      else Inr b)"

definition makeSuffixStates :: "(byte list \<Rightarrow> 'k) \<Rightarrow> nat \<Rightarrow> 'k builder \<Rightarrow> panic + 'k builder" where
  "makeSuffixStates H p b = makeSuffixStates_from H p (length (prevValue b)) b"

text \<open>The body of the loop \<^verbatim>\<open>for value := range values\<close>.\<close>

definition addValue :: "(byte list \<Rightarrow> 'k) \<Rightarrow> byte list \<Rightarrow> 'k builder \<Rightarrow> panic + 'k builder" where
  "addValue H v b =
     (if 0 \<le> bytes_Compare (prevValue b) v then Inl (OutOfOrder (prevValue b) v)
      else
        (let prefixLen = commonPrefixLen (prevValue b) v
         in case makeSuffixStates H prefixLen b of
              Inl e \<Rightarrow> Inl e
            | Inr b1 \<Rightarrow>
                (if prefixLen + 1 \<le> length (larvae b1) \<and> prefixLen + 1 \<le> length (terminals b1) then
                   (let larvae1 = take (prefixLen + 1) (larvae b1) @ replicate (length v - prefixLen) [];
                        terminals1 = take (prefixLen + 1) (terminals b1) @ replicate (length v - prefixLen) False
                    in if length v < length terminals1 then
                         Inr (b1\<lparr>terminals := terminals1[length v := True],
                                  larvae := larvae1, prevValue := v\<rparr>)
                       else Inl IndexOutOfRange)
                 else Inl SliceBoundsOutOfRange)))"

text \<open>The channel is the list of the values it delivers before it is closed.\<close>

fun FromChannel_loop :: "(byte list \<Rightarrow> 'k) \<Rightarrow> byte list list \<Rightarrow> 'k builder \<Rightarrow> panic + 'k builder" where
  "FromChannel_loop H [] b = Inr b"
| "FromChannel_loop H (v # vs) b =
     (case addValue H v b of Inl e \<Rightarrow> Inl e | Inr b1 \<Rightarrow> FromChannel_loop H vs b1)"

text \<open>What follows the loop: the remaining states, then the start state.\<close>

definition finish :: "(byte list \<Rightarrow> 'k) \<Rightarrow> 'k builder \<Rightarrow> panic + Recognizer" where
  "finish H b =
     (case makeSuffixStates H 0 b of
        Inl e \<Rightarrow> Inl e
      | Inr b1 \<Rightarrow>
          (if 0 < length (larvae b1) then
             (let (startId, b2) = makeState H (larvae b1 ! 0) b1
              in if int startId \<noteq> int (length (self b2)) - 1
                 then Inl (UnexpectedStartID (int startId) (int (length (self b2)) - 1))
                 else Inr (self b2))
           else Inl IndexOutOfRange))"

definition FromChannel :: "(byte list \<Rightarrow> 'k) \<Rightarrow> byte list list \<Rightarrow> panic + Recognizer" where
  "FromChannel H vs =
     (case FromChannel_loop H vs init_builder of Inl e \<Rightarrow> Inl e | Inr b \<Rightarrow> finish H b)"

section \<open>The Recognizer\<close>

text \<open>\<^verbatim>\<open>Recognizer.Start\<close>: \<^verbatim>\<open>self[len(self)-1]\<close>, a panic on the empty Recognizer.\<close>

definition Start :: "Recognizer \<Rightarrow> panic + state" where
  "Start m = (if length m = 0 then Inl IndexOutOfRange else Inr (m ! (length m - 1)))"

text \<open>
  The loop of \<^verbatim>\<open>Recognizer.Recognizes\<close> over the bytes of the value, with the
  variables \<^verbatim>\<open>state\<close> and \<^verbatim>\<open>tran\<close>; its result is \<^verbatim>\<open>tran\<close> when the loop ends
  or breaks.
\<close>

fun Recognizes_loop :: "Recognizer \<Rightarrow> byte list \<Rightarrow> state \<Rightarrow> transition \<Rightarrow> panic + transition" where
  "Recognizes_loop m [] st tran = Inr tran"
| "Recognizes_loop m (v # vs) st tran =
     (let found = IndexForTrigger st v
      in if found < length st then
           (let tran1 = st ! found
            in if nat (ToState tran1) < length m
               then Recognizes_loop m vs (m ! nat (ToState tran1)) tran1
               else Inl IndexOutOfRange)
         else Inr tran)"

definition Recognizes :: "Recognizer \<Rightarrow> byte list \<Rightarrow> panic + bool" where
  "Recognizes m v =
     (if length m = 0 then Inr False
      else
        (case Start m of
           Inl e \<Rightarrow> Inl e
         | Inr st \<Rightarrow>
             (case Recognizes_loop m v st 0 of
                Inl e \<Rightarrow> Inl e
              | Inr tran \<Rightarrow> Inr (IsTerminal tran))))"

section \<open>Constraints (constraints.go)\<close>

text \<open>The interface \<^verbatim>\<open>Constraints\<close>: four predicates without side effects.\<close>

record Constraints =
  IsSmallEnough :: "int \<Rightarrow> bool"
  IsLargeEnough :: "int \<Rightarrow> bool"
  IsValueAllowed :: "int \<Rightarrow> byte \<Rightarrow> bool"
  IsSequenceAllowed :: "byte list \<Rightarrow> bool"

definition BaseConstraints :: Constraints where
  "BaseConstraints =
     \<lparr>IsSmallEnough = (\<lambda>_. True), IsLargeEnough = (\<lambda>_. True),
      IsValueAllowed = (\<lambda>_ _. True), IsSequenceAllowed = (\<lambda>_. True)\<rparr>"

section \<open>Enumeration\<close>

text \<open>\<^verbatim>\<open>type pathNode struct { s state; c int }\<close>; the cursor only counts up from 0.\<close>

datatype pathNode = PathNode (node_s: state) (node_c: nat)

definition CurrentTransition :: "pathNode \<Rightarrow> panic + transition" where
  "CurrentTransition p =
     (if node_c p < length (node_s p) then Inr (node_s p ! node_c p) else Inl IndexOutOfRange)"

definition Exhausted :: "pathNode \<Rightarrow> bool" where
  "Exhausted p = (length (node_s p) \<le> node_c p)"

definition Advance :: "pathNode \<Rightarrow> pathNode" where
  "Advance p = PathNode (node_s p) (node_c p + 1)"

text \<open>\<^verbatim>\<open>for ; p.c < len(p.s); p.c++ { if allowed(p.Trigger()) { break } }\<close>\<close>

function AdvanceUntilAllowed :: "(byte \<Rightarrow> bool) \<Rightarrow> pathNode \<Rightarrow> pathNode" where
  "AdvanceUntilAllowed allowed p =
     (if node_c p < length (node_s p) then
        (if allowed (Trigger (node_s p ! node_c p)) then p
         else AdvanceUntilAllowed allowed (Advance p))
      else p)"
  by pat_completeness auto
termination
  by (relation "measure (\<lambda>(allowed, p). length (node_s p) - node_c p)")
    (auto simp add: Advance_def)

declare AdvanceUntilAllowed.simps [simp del]

text \<open>The closures of \<^verbatim>\<open>ConstrainedSequences\<close>.\<close>

definition advanceUntilAllowed :: "Constraints \<Rightarrow> nat \<Rightarrow> pathNode \<Rightarrow> pathNode" where
  "advanceUntilAllowed con i n = AdvanceUntilAllowed (\<lambda>b. IsValueAllowed con (int i) b) n"

definition advanceLastUntilAllowed :: "Constraints \<Rightarrow> pathNode list \<Rightarrow> panic + pathNode list" where
  "advanceLastUntilAllowed con path =
     (if length path = 0 then Inl IndexOutOfRange
      else Inr (path[length path - 1 :=
                  advanceUntilAllowed con (length path - 1) (path ! (length path - 1))]))"

text \<open>
  The loop of \<^verbatim>\<open>popExhausted\<close>, from the value \<open>size\<close> of its counter; it writes to
  the elements of \<open>path\<close> in place, and the slice is cut to \<open>size\<close> afterwards.
\<close>

fun popExhausted_loop :: "Constraints \<Rightarrow> pathNode list \<Rightarrow> nat \<Rightarrow> pathNode list \<times> nat" where
  "popExhausted_loop con path 0 = (path, 0)"
| "popExhausted_loop con path (Suc n) =
     (if \<not> Exhausted (path ! n) then (path, Suc n)
      else if 0 < n then
        popExhausted_loop con
          (path[n - 1 := advanceUntilAllowed con (n - 1) (Advance (path ! (n - 1)))]) n
      else popExhausted_loop con path n)"

definition popExhausted :: "Constraints \<Rightarrow> pathNode list \<Rightarrow> pathNode list" where
  "popExhausted con path =
     (let (path1, size) = popExhausted_loop con path (length path)
      in if size \<noteq> length path then take size path1 else path1)"

fun getBytes :: "pathNode list \<Rightarrow> panic + byte list" where
  "getBytes [] = Inr []"
| "getBytes (node # path) =
     (case CurrentTransition node of
        Inl e \<Rightarrow> Inl e
      | Inr t \<Rightarrow> (case getBytes path of Inl e \<Rightarrow> Inl e | Inr bs \<Rightarrow> Inr (Trigger t # bs)))"

text \<open>
  The body of the loop of the producing goroutine, on a non-empty \<open>path\<close>; \<open>out\<close> is
  the list of the values sent on the channel so far.
\<close>

definition enum_body ::
  "Recognizer \<Rightarrow> Constraints \<Rightarrow> pathNode list \<Rightarrow> byte list list \<Rightarrow>
   panic + (pathNode list \<times> byte list list)" where
  "enum_body m con path out =
     (case CurrentTransition (path ! (length path - 1)) of
        Inl e \<Rightarrow> Inl e
      | Inr curTransition \<Rightarrow>
          (case (if IsTerminal curTransition \<and> IsLargeEnough con (int (length path)) then
                   (case getBytes path of
                      Inl e \<Rightarrow> Inl e
                    | Inr b \<Rightarrow> Inr (if IsSequenceAllowed con b then out @ [b] else out))
                 else Inr out) of
             Inl e \<Rightarrow> Inl e
           | Inr out1 \<Rightarrow>
               (if nat (ToState curTransition) < length m then
                  (let nextState = m ! nat (ToState curTransition);
                       path1 =
                         (if \<not> IsEmpty nextState \<and> IsSmallEnough con (int (length path) + 1)
                          then path @ [PathNode nextState 0]
                          else path[length path - 1 := Advance (path ! (length path - 1))])
                   in case advanceLastUntilAllowed con path1 of
                        Inl e \<Rightarrow> Inl e
                      | Inr path2 \<Rightarrow> Inr (path2, out1))
                else Inl IndexOutOfRange)))"

text \<open>
  \<^verbatim>\<open>for path = popExhausted(path); len(path) > 0; path = popExhausted(path)\<close>. The
  result is \<open>None\<close> when the loop never ends, the panic when the goroutine panics,
  and otherwise everything sent before the channel is closed.
\<close>

partial_function (option) enum_loop ::
  "Recognizer \<Rightarrow> Constraints \<Rightarrow> pathNode list \<Rightarrow> byte list list \<Rightarrow>
   (panic + byte list list) option" where
  "enum_loop m con path0 out =
     (let path = popExhausted con path0
      in if 0 < length path then
           (case enum_body m con path out of
              Inl e \<Rightarrow> Some (Inl e)
            | Inr (path1, out1) \<Rightarrow> enum_loop m con path1 out1)
         else Some (Inr out))"

declare enum_loop.simps [code]

definition ConstrainedSequences ::
  "Recognizer \<Rightarrow> Constraints \<Rightarrow> (panic + byte list list) option" where
  "ConstrainedSequences m con =
     (case Start m of
        Inl e \<Rightarrow> Some (Inl e)
      | Inr st \<Rightarrow>
          (case advanceLastUntilAllowed con [PathNode st 0] of
             Inl e \<Rightarrow> Some (Inl e)
           | Inr path \<Rightarrow> enum_loop m con path []))"

definition AllSequences :: "Recognizer \<Rightarrow> (panic + byte list list) option" where
  "AllSequences m = ConstrainedSequences m BaseConstraints"

section \<open>Serialization (serialize.go)\<close>

text \<open>\<^verbatim>\<open>const serializationPrefix = "MMeMv1"\<close>\<close>

definition serializationPrefix :: "byte list" where
  "serializationPrefix = [0x4D, 0x4D, 0x65, 0x4D, 0x76, 0x31]"

text \<open>
  \<^verbatim>\<open>Recognizer.WriteTo\<close> into a writer that takes every byte (a
  \<^verbatim>\<open>bytes.Buffer\<close>): \<open>w\<close> is what has been written. The conversions
  \<^verbatim>\<open>int32(len(self))\<close> and \<^verbatim>\<open>byte(len(s))\<close> keep the low bits.
\<close>

fun WriteTo_loop :: "state list \<Rightarrow> byte list \<Rightarrow> byte list" where
  "WriteTo_loop [] w = w"
| "WriteTo_loop (st # sts) w =
     WriteTo_loop sts (w @ [word_of_nat (length st)] @ concat (map put_uint32 st))"

definition WriteTo :: "Recognizer \<Rightarrow> byte list \<Rightarrow> byte list" where
  "WriteTo m w =
     WriteTo_loop m (w @ serializationPrefix @ put_uint32 (word_of_nat (length m)))"

text \<open>
  \<^verbatim>\<open>ReadFrom\<close>. The inner loop reads the transitions of one state; the outer loop
  fills \<^verbatim>\<open>self\<close>, which \<^verbatim>\<open>make\<close> allocated with \<open>numStates\<close> empty states, so that
  an error leaves the states not yet read empty. The result is the pair
  \<^verbatim>\<open>(self, err)\<close>.
\<close>

fun read_transitions :: "nat \<Rightarrow> byte list \<Rightarrow> state \<Rightarrow> io_error + (state \<times> byte list)" where
  "read_transitions 0 r st = Inr (st, r)"
| "read_transitions (Suc n) r st =
     (case ReadFull 4 r of
        Inl e \<Rightarrow> Inl e
      | Inr (bs, r1) \<Rightarrow> read_transitions n r1 (st @ [get_uint32 bs]))"

fun read_states :: "nat \<Rightarrow> byte list \<Rightarrow> Recognizer \<Rightarrow> Recognizer \<times> io_error option" where
  "read_states 0 r done = (done, None)"
| "read_states (Suc n) r done =
     (case ReadFull 1 r of
        Inl e \<Rightarrow> (done @ replicate (Suc n) [], Some e)
      | Inr (bs, r1) \<Rightarrow>
          (case read_transitions (unat (bs ! 0)) r1 [] of
             Inl e \<Rightarrow> (done @ replicate (Suc n) [], Some e)
           | Inr (st, r2) \<Rightarrow> read_states n r2 (done @ [st])))"

definition ReadFrom :: "byte list \<Rightarrow> panic + (Recognizer \<times> io_error option)" where
  "ReadFrom r =
     (case ReadFull (length serializationPrefix) r of
        Inl e \<Rightarrow> Inr ([], Some e)
      | Inr (versionString, r1) \<Rightarrow>
          (case ReadFull 4 r1 of
             Inl e \<Rightarrow> Inr ([], Some e)
           | Inr (bs, r2) \<Rightarrow>
               (let numStates = sint (get_uint32 bs)
                in if numStates < 0 then Inl MakeSliceLenOutOfRange
                   else Inr (read_states (nat numStates) r2 []))))"

section \<open>Notions used in the proofs\<close>

text \<open>
  The stack of in-progress states and the stack of terminal markers have one entry per
  position of the previous value, from 0 to its length.
\<close>

definition shape :: "'k builder \<Rightarrow> bool" where
  "shape b \<longleftrightarrow>
     length (larvae b) = Suc (length (prevValue b)) \<and>
     length (terminals b) = Suc (length (prevValue b))"

text \<open>
  A Recognizer is well formed when every transition of the state at index \<open>i\<close> leads
  to a state of smaller index; \<open>below n st\<close> bounds the destinations of one state.
\<close>

definition below :: "nat \<Rightarrow> state \<Rightarrow> bool" where
  "below n st \<longleftrightarrow> list_all (\<lambda>t. nat (ToState t) < n) st"

definition wf_Recognizer :: "Recognizer \<Rightarrow> bool" where
  "wf_Recognizer m \<longleftrightarrow> list_all (\<lambda>i. below i (m ! i)) [0 ..< length m]"

text \<open>
  The depth-first enumeration as a recursive function: what the frame of the
  transitions \<open>ts\<close>, reached by the bytes \<open>pre\<close>, sends. The first argument bounds the
  depth.
\<close>

fun dfs :: "nat \<Rightarrow> Recognizer \<Rightarrow> Constraints \<Rightarrow> byte list \<Rightarrow> state \<Rightarrow> byte list list" where
  "dfs 0 m con pre ts = []"
| "dfs (Suc n) m con pre ts =
     concat (map (\<lambda>t.
       if IsValueAllowed con (int (length pre)) (Trigger t) then
         (if IsTerminal t \<and> IsLargeEnough con (int (length pre) + 1) \<and>
             IsSequenceAllowed con (pre @ [Trigger t])
          then [pre @ [Trigger t]] else []) @
         (if \<not> IsEmpty (m ! nat (ToState t)) \<and> IsSmallEnough con (int (length pre) + 2)
          then dfs n m con (pre @ [Trigger t]) (m ! nat (ToState t)) else [])
       else []) ts)"

text \<open>The sequences a state accepts, in the order of its transitions.\<close>

fun seqs :: "nat \<Rightarrow> Recognizer \<Rightarrow> state \<Rightarrow> byte list list" where
  "seqs 0 m ts = []"
| "seqs (Suc n) m ts =
     concat (map (\<lambda>t.
       map ((#) (Trigger t))
         ((if IsTerminal t then [[]] else []) @ seqs n m (m ! nat (ToState t)))) ts)"

text \<open>
  The sequences of a state in a Recognizer, with a depth bound that a well-formed
  Recognizer never reaches.
\<close>

definition lang :: "Recognizer \<Rightarrow> state \<Rightarrow> byte list list" where
  "lang m st = seqs (Suc (length m)) m st"

text \<open>
  What the builder holds in its stacks: the sequences of the in-progress state at
  each position, and below each position the previous value continued, which is
  accepted where its terminal marker is set.
\<close>

fun pend :: "Recognizer \<Rightarrow> state list \<Rightarrow> bool list \<Rightarrow> byte list \<Rightarrow> byte list list" where
  "pend m (l # ls) (t # ts) (x # xs) =
     lang m l @ map ((#) x) ((if t then [[]] else []) @ pend m ls ts xs)"
| "pend m (l # ls) ts xs = lang m l"
| "pend m [] ts xs = []"

text \<open>The table \<^verbatim>\<open>states\<close> maps the fingerprint of every interned state to its index.\<close>

definition interned :: "(byte list \<Rightarrow> 'k) \<Rightarrow> 'k builder \<Rightarrow> bool" where
  "interned H b \<longleftrightarrow>
     wf_Recognizer (self b) \<and>
     (\<forall>k j. states b k = Some j \<longrightarrow> j < length (self b) \<and> Fingerprint H (self b ! j) = k) \<and>
     (\<forall>j < length (self b). states b (Fingerprint H (self b ! j)) = Some j)"

text \<open>
  Every interned state was reached by a non-empty prefix: its sequences are
  continuations of that prefix in the input read so far.
\<close>

definition continuations :: "Recognizer \<Rightarrow> byte list list \<Rightarrow> bool" where
  "continuations m W \<longleftrightarrow>
     (\<forall>j < length m. \<exists>u. u \<noteq> [] \<and> (\<forall>w \<in> set (lang m (m ! j)). u @ w \<in> set W))"

text \<open>
  The invariant of the builder after the values \<open>W\<close>, seen from position \<open>i\<close> of the
  previous value: the positions above \<open>i\<close> have been made into states.
\<close>

definition binv :: "(byte list \<Rightarrow> 'k) \<Rightarrow> byte list list \<Rightarrow> nat \<Rightarrow> 'k builder \<Rightarrow> bool" where
  "binv H W i b \<longleftrightarrow>
     shape b \<and> i \<le> length (prevValue b) \<and> interned H b \<and>
     (\<forall>l \<in> set (larvae b). below (length (self b)) l) \<and>
     (\<forall>j < i. \<forall>t \<in> set (larvae b ! j). Trigger t < prevValue b ! j) \<and>
     (i < length (prevValue b) \<longrightarrow> (\<forall>t \<in> set (larvae b ! i). Trigger t \<le> prevValue b ! i)) \<and>
     (i = length (prevValue b) \<longrightarrow> larvae b ! i = []) \<and>
     length (self b) + i \<le> sum_list (map length W) \<and>
     pend (self b) (take (Suc i) (larvae b)) (take i (tl (terminals b))) (take i (prevValue b)) = W \<and>
     continuations (self b) W"

text \<open>
  The states built from a single value that repeats one byte: the state number \<open>k\<close>
  accepts the \<open>k\<close> last bytes.
\<close>

definition chain_state :: "byte \<Rightarrow> nat \<Rightarrow> state" where
  "chain_state a k = (if k = 0 then [] else [NewTransition a (int (k - 1)) (k = 1)])"

text \<open>
  Two runs of the builder, with two fingerprint functions, that hold the same states
  and the same stacks.
\<close>

definition same_run :: "'a builder \<Rightarrow> 'b builder \<Rightarrow> bool" where
  "same_run b0 b \<longleftrightarrow>
     self b = self b0 \<and> larvae b = larvae b0 \<and> terminals b = terminals b0 \<and>
     prevValue b = prevValue b0"

text \<open>
  The transitions of a state are in strictly ascending order of their triggers, which
  is what the binary search of \<^const>\<open>IndexForTrigger\<close> relies on; \<open>all_ordered\<close> says so
  of every state the builder holds.
\<close>

definition ordered :: "state \<Rightarrow> bool" where
  "ordered st \<longleftrightarrow> sorted_wrt (\<lambda>s t. Trigger s < Trigger t) st"

definition all_ordered :: "'k builder \<Rightarrow> bool" where
  "all_ordered b \<longleftrightarrow> list_all ordered (self b) \<and> list_all ordered (larvae b)"

text \<open>
  The number of states the builder has interned when only the start state is left to
  intern. Every state id that \<^const>\<open>NewTransition\<close> is given is below this number, and
  fits the 23 bits of a destination when it is at most \<open>2 ^ 23\<close>.
\<close>

definition state_count :: "(byte list \<Rightarrow> 'k) \<Rightarrow> byte list list \<Rightarrow> nat" where
  "state_count H vs =
     (case FromChannel_loop H vs init_builder of
        Inl e \<Rightarrow> 0
      | Inr b \<Rightarrow> (case makeSuffixStates H 0 b of Inl e \<Rightarrow> 0 | Inr b1 \<Rightarrow> length (self b1)))"

section \<open>The packed transition codec\<close>

lemma bit_0x800000: "bit (0x800000 :: int) n \<longleftrightarrow> n = 23"
proof -
  have "(0x800000 :: int) = 2 ^ 23" by simp
  then show ?thesis by (simp only: bit_exp_iff) auto
qed

lemma bit_0x7fffff: "bit (0x7fffff :: int) n \<longleftrightarrow> n < 23"
proof -
  have "(0x7fffff :: int) = mask 23" by (simp add: mask_eq_exp_minus_1)
  then show ?thesis by (simp only: bit_mask_iff) auto
qed

lemma IsTerminal_bit: "IsTerminal t \<longleftrightarrow> bit t 23"
proof -
  have "(0x800000 :: 32 word) = 2 ^ 23" by simp
  then show ?thesis
    unfolding IsTerminal_def by (simp only: and_exp_eq_0_iff_not_bit) simp
qed

lemma Trigger_NewTransition: "Trigger (NewTransition b d f) = b"
  unfolding Trigger_def NewTransition_def Let_def
  by (rule bit_word_eqI) (auto simp add: bit_simps bit_0x800000 bit_0x7fffff)

lemma IsTerminal_NewTransition: "IsTerminal (NewTransition b d f) = f"
  unfolding IsTerminal_bit NewTransition_def Let_def
  by (auto simp add: bit_simps bit_0x800000 bit_0x7fffff)

lemma ToState_NewTransition: "ToState (NewTransition b d f) = d mod 2 ^ 23"
proof -
  have "NewTransition b d f AND 0x7fffff = take_bit 23 (word_of_int d)"
    unfolding NewTransition_def Let_def
    by (rule bit_word_eqI) (auto simp add: bit_simps bit_0x800000 bit_0x7fffff)
  then have "ToState (NewTransition b d f) = take_bit 23 (take_bit 32 d)"
    unfolding ToState_def by (simp add: unsigned_take_bit_eq uint_word_of_int_eq)
  also have "\<dots> = take_bit 23 d" by simp
  finally show ?thesis by (simp add: take_bit_eq_mod)
qed

lemma unat_Trigger: "unat (Trigger t) = unat t div 2 ^ 24"
proof -
  have "unat t < 2 ^ 32" using unsigned_less [of t] by simp
  then have "unat t div 2 ^ 24 < 2 ^ 8" by simp
  moreover have "unat (Trigger t) = take_bit 8 (unat t div 2 ^ 24)"
    unfolding Trigger_def
    by (simp only: unsigned_ucast_eq unat_drop_bit_eq) (simp add: drop_bit_eq_div)
  ultimately show ?thesis by (simp add: take_bit_nat_eq_self)
qed

lemma Trigger_less_imp_less: "Trigger t1 < Trigger t2 \<Longrightarrow> t1 < t2"
proof -
  assume "Trigger t1 < Trigger t2"
  then have "unat t1 div 2 ^ 24 < unat t2 div 2 ^ 24"
    by (simp add: word_less_nat_alt unat_Trigger)
  then have "unat t1 < unat t2"
    by (meson div_le_mono not_le)
  then show ?thesis by (simp add: word_less_nat_alt)
qed

text \<open>
  C7. A transition packed by \<^const>\<open>NewTransition\<close> gives back its trigger and its
  terminal flag, and its destination when that is in \<open>0 ..< 2 ^ 23\<close>; any other
  destination is reduced modulo \<open>2 ^ 23\<close>, without an error; and of two packed
  transitions the one with the smaller trigger is the smaller unsigned 32-bit value.
\<close>

theorem NewTransition_codec:
  "Trigger (NewTransition b d f) = b \<and>
   IsTerminal (NewTransition b d f) = f \<and>
   (0 \<le> d \<and> d < 2 ^ 23 \<longrightarrow> ToState (NewTransition b d f) = d) \<and>
   ToState (NewTransition b d f) = d mod 2 ^ 23 \<and>
   (Trigger t1 < Trigger t2 \<longrightarrow> t1 < t2)"
  by (simp add: Trigger_NewTransition IsTerminal_NewTransition ToState_NewTransition
      Trigger_less_imp_less)

theorem NewTransition_codec_witness:
  "(0 :: int) \<le> 5 \<and> (5 :: int) < 2 ^ 23 \<and> ToState (NewTransition 65 5 True) = 5 \<and>
   ToState (NewTransition 65 (2 ^ 23 + 5) True) = 5 \<and>
   Trigger (NewTransition 65 5 True) < Trigger (NewTransition 66 0 False) \<and>
   NewTransition 65 5 True < NewTransition 66 0 False"
proof -
  have less: "Trigger (NewTransition 65 5 True) < Trigger (NewTransition 66 0 False)"
    by (simp add: Trigger_NewTransition)
  show ?thesis
    using less
      NewTransition_codec [of 65 5 True "NewTransition 65 5 True" "NewTransition 66 0 False"]
      NewTransition_codec [of 65 "2 ^ 23 + 5" True 0 0]
    by simp
qed

section \<open>Serialization\<close>

lemma get_put_uint32: "get_uint32 (put_uint32 w) = w"
proof (rule bit_word_eqI)
  fix n :: nat
  assume "n < LENGTH(32)"
  then consider "n < 8" | "8 \<le> n" "n < 16" | "16 \<le> n" "n < 24" | "24 \<le> n" "n < 32"
    by fastforce
  then show "bit (get_uint32 (put_uint32 w)) n = bit w n"
    unfolding get_uint32_def put_uint32_def
    by cases (auto simp add: bit_simps)
qed

lemma length_put_uint32: "length (put_uint32 w) = 4"
  by (simp add: put_uint32_def)

lemma ReadFull_append: "length xs = n \<Longrightarrow> ReadFull n (xs @ r) = Inr (xs, r)"
  by (simp add: ReadFull_def)

lemma read_transitions_encoded:
  "read_transitions (length st) (concat (map put_uint32 st) @ r) acc = Inr (acc @ st, r)"
proof (induction st arbitrary: acc)
  case Nil
  then show ?case by simp
next
  case (Cons t st)
  have "ReadFull 4 (put_uint32 t @ concat (map put_uint32 st) @ r)
          = Inr (put_uint32 t, concat (map put_uint32 st) @ r)"
    by (rule ReadFull_append) (rule length_put_uint32)
  then show ?case using Cons.IH [of "acc @ [t]"] by (simp add: get_put_uint32)
qed

lemma WriteTo_loop_append:
  "WriteTo_loop m w =
     w @ concat (map (\<lambda>st. word_of_nat (length st) # concat (map put_uint32 st)) m)"
  by (induction m arbitrary: w) simp_all

lemma unat_byte_of_length:
  "length (st :: state) \<le> 255 \<Longrightarrow> unat (word_of_nat (length st) :: byte) = length st"
  by (simp add: unat_of_nat)

lemma read_states_encoded:
  "\<forall>st \<in> set m. length st \<le> 255 \<Longrightarrow>
   read_states (length m)
     (concat (map (\<lambda>st. word_of_nat (length st) # concat (map put_uint32 st)) m) @ r) done
   = (done @ m, None)"
proof (induction m arbitrary: "done")
  case Nil
  then show ?case by simp
next
  case (Cons st m)
  let ?rest = "concat (map (\<lambda>st. word_of_nat (length st) # concat (map put_uint32 st)) m) @ r"
  have len: "unat (word_of_nat (length st) :: byte) = length st"
    using Cons.prems by (simp add: unat_byte_of_length)
  have rf: "ReadFull (Suc 0) ((word_of_nat (length st) :: byte) # concat (map put_uint32 st) @ ?rest)
          = Inr ([word_of_nat (length st)], concat (map put_uint32 st) @ ?rest)"
    using ReadFull_append [of "[word_of_nat (length st) :: byte]" "Suc 0"] by simp
  show ?case
    using Cons.IH [of "done @ [st]"] Cons.prems
    by (simp add: rf len read_transitions_encoded)
qed

lemma sint_of_length: "n < 2 ^ 31 \<Longrightarrow> sint (word_of_nat n :: 32 word) = int n"
  by (simp add: signed_of_nat signed_take_bit_int_eq_self)

lemma ReadFrom_WriteTo:
  assumes "length m < 2 ^ 31" and "\<forall>st \<in> set m. length st \<le> 255"
  shows "ReadFrom (WriteTo m []) = Inr (m, None)"
proof -
  let ?body = "concat (map (\<lambda>st. word_of_nat (length st) # concat (map put_uint32 st)) m)"
  have "ReadFull (length serializationPrefix)
          (serializationPrefix @ put_uint32 (word_of_nat (length m)) @ ?body)
        = Inr (serializationPrefix, put_uint32 (word_of_nat (length m)) @ ?body)"
    by (rule ReadFull_append) simp
  moreover have "ReadFull 4 (put_uint32 (word_of_nat (length m)) @ ?body)
        = Inr (put_uint32 (word_of_nat (length m)), ?body)"
    by (rule ReadFull_append) (rule length_put_uint32)
  ultimately show ?thesis
    using read_states_encoded [OF assms(2), of "[]" "[]"] assms(1)
    by (simp add: ReadFrom_def WriteTo_def WriteTo_loop_append get_put_uint32 sint_of_length)
qed

text \<open>
  C3. For a Recognizer whose number of states fits a signed 32-bit integer and whose
  states have at most 255 transitions each, \<^const>\<open>ReadFrom\<close> on the bytes that
  \<^const>\<open>WriteTo\<close> produced returns, without error, a Recognizer equal to the original
  state for state in the same order; membership and enumeration therefore agree.
\<close>

theorem serialization_round_trip:
  assumes "length m < 2 ^ 31" and "\<forall>st \<in> set m. length st \<le> 255"
  shows "\<exists>m'. ReadFrom (WriteTo m []) = Inr (m', None) \<and>
           length m' = length m \<and> (\<forall>i < length m. m' ! i = m ! i) \<and> m' = m \<and>
           (\<forall>v. Recognizes m' v = Recognizes m v) \<and>
           (\<forall>con. ConstrainedSequences m' con = ConstrainedSequences m con) \<and>
           AllSequences m' = AllSequences m"
  using ReadFrom_WriteTo [OF assms] by simp

theorem serialization_round_trip_witness:
  "length [[], [NewTransition 65 0 True]] < 2 ^ 31 \<and>
   list_all (\<lambda>st. length st \<le> 255) [[], [NewTransition 65 0 True]] \<and>
   ReadFrom (WriteTo [[], [NewTransition 65 0 True]] []) =
     Inr ([[], [NewTransition 65 0 True]], None)"
proof -
  have h1: "length [[], [NewTransition 65 0 True]] < 2 ^ 31" by simp
  have h2: "\<forall>st \<in> set [[], [NewTransition 65 0 True]]. length st \<le> 255" by simp
  show ?thesis
    using h1 h2 serialization_round_trip [OF h1 h2] by simp
qed

text \<open>
  C4. \<^const>\<open>ReadFrom\<close> reads the six bytes of the version string and never compares
  them with \<^const>\<open>serializationPrefix\<close>: on six other bytes followed by a state count
  of 0 it returns the empty Recognizer and no error.
\<close>

theorem ReadFrom_ignores_magic:
  "ReadFrom ([0x58, 0x58, 0x58, 0x58, 0x58, 0x58] @ [0, 0, 0, 0]) = Inr ([], None) \<and>
   [0x58, 0x58, 0x58, 0x58, 0x58, 0x58] \<noteq> serializationPrefix"
  by code_simp

text \<open>
  C10. Whatever the six bytes of the prefix are, a state count whose 32-bit value is
  negative makes \<^const>\<open>ReadFrom\<close> panic in \<^verbatim>\<open>make\<close>: no error value is returned.
\<close>

theorem ReadFrom_negative_count_panics:
  assumes "length prefix = 6" and "sint numStates < 0"
  shows "ReadFrom (prefix @ put_uint32 numStates @ rest) = Inl MakeSliceLenOutOfRange"
proof -
  have "ReadFull (length serializationPrefix) (prefix @ put_uint32 numStates @ rest)
          = Inr (prefix, put_uint32 numStates @ rest)"
    by (rule ReadFull_append) (simp add: assms(1) serializationPrefix_def)
  moreover have "ReadFull 4 (put_uint32 numStates @ rest) = Inr (put_uint32 numStates, rest)"
    by (rule ReadFull_append) (rule length_put_uint32)
  ultimately show ?thesis
    using assms(2) by (simp add: ReadFrom_def get_put_uint32)
qed

theorem ReadFrom_negative_count_panics_witness:
  "length serializationPrefix = 6 \<and> sint (- 1 :: 32 word) < 0 \<and>
   ReadFrom (serializationPrefix @ [0xFF, 0xFF, 0xFF, 0xFF]) = Inl MakeSliceLenOutOfRange"
proof -
  have h1: "length serializationPrefix = 6" by (simp add: serializationPrefix_def)
  have h2: "sint (- 1 :: 32 word) < 0" by simp
  have "put_uint32 (- 1) = [0xFF, 0xFF, 0xFF, 0xFF]" by code_simp
  then show ?thesis
    using h1 h2 ReadFrom_negative_count_panics [OF h1 h2, of "[]"] by simp
qed

section \<open>The empty input\<close>

lemma Search_loop_all_false:
  "(\<And>x. i \<le> x \<Longrightarrow> x < j \<Longrightarrow> \<not> f x) \<Longrightarrow> i \<le> j \<Longrightarrow> Search_loop f i j = j"
proof (induction f i j rule: Search_loop.induct)
  case (1 f i j)
  show ?case
  proof (cases "i < j")
    case True
    let ?h = "(i + j) div 2"
    have h: "i \<le> ?h" "?h < j" using True by auto
    then have "\<not> f ?h" using "1.prems"(1) by blast
    moreover have "Search_loop f (?h + 1) j = j"
      using "1.IH"(1) [OF True refl \<open>\<not> f ?h\<close>] "1.prems" h by auto
    ultimately show ?thesis using True by (subst Search_loop.simps) (simp add: Let_def)
  next
    case False
    then show ?thesis using "1.prems"(2) by (subst Search_loop.simps) simp
  qed
qed

lemma IndexForTrigger_Nil: "IndexForTrigger [] v = 0"
  by (simp add: IndexForTrigger_def Search_def Let_def)

lemma Recognizes_loop_empty_state: "Recognizes_loop m v [] tran = Inr tran"
  by (cases v) (simp_all add: IndexForTrigger_Nil)

lemma IsTerminal_0: "\<not> IsTerminal 0"
  by (simp add: IsTerminal_def)

lemma Recognizes_single_empty: "Recognizes [[]] v = Inr False"
  by (simp add: Recognizes_def Start_def Recognizes_loop_empty_state IsTerminal_0)

lemma FromChannel_Nil: "FromChannel H [] = Inr [[]]"
  by (simp add: FromChannel_def finish_def makeSuffixStates_def init_builder_def
      makeState_def Let_def)

lemma AllSequences_single_empty: "AllSequences [[]] = Some (Inr [])"
  by code_simp

lemma finish_nonempty: "finish H b = Inr r \<Longrightarrow> r \<noteq> []"
  by (auto simp add: finish_def Let_def split: sum.splits if_splits prod.splits)

lemma FromChannel_nonempty: "FromChannel H vs = Inr r \<Longrightarrow> r \<noteq> []"
  by (auto simp add: FromChannel_def split: sum.splits dest: finish_nonempty)

text \<open>
  C9. On a channel closed before any value, \<^const>\<open>FromChannel\<close> returns the
  Recognizer of exactly one state without transitions; that Recognizer recognizes no
  sequence and its unconstrained enumeration sends nothing; and whatever the input,
  a Recognizer that \<^const>\<open>FromChannel\<close> returns has at least one state.
\<close>

theorem FromChannel_empty_input:
  "FromChannel H [] = Inr [[]] \<and>
   (\<forall>v. Recognizes [[]] v = Inr False) \<and>
   AllSequences [[]] = Some (Inr []) \<and>
   (\<forall>vs r. FromChannel H vs = Inr r \<longrightarrow> r \<noteq> [])"
  by (simp add: FromChannel_Nil Recognizes_single_empty AllSequences_single_empty
      FromChannel_nonempty)

theorem FromChannel_empty_input_witness:
  "FromChannel (\<lambda>bs. bs) [[0x41]] = Inr [[], [NewTransition 0x41 0 True]] \<and>
   [[], [NewTransition 0x41 0 True]] \<noteq> [] \<and>
   FromChannel (\<lambda>bs :: byte list. bs) [] = Inr [[]] \<and>
   Recognizes [[]] [0x41] = Inr False"
proof -
  have run: "FromChannel (\<lambda>bs. bs) [[0x41]] = Inr [[], [NewTransition 0x41 0 True]]"
    by code_simp
  show ?thesis
    using run FromChannel_empty_input [of "\<lambda>bs :: byte list. bs"] by simp
qed

section \<open>Two executions\<close>

text \<open>
  C1. Built from the single sequence \<open>A\<close>, the Recognizer recognizes \<open>AB\<close>: the loop
  of \<^const>\<open>Recognizes\<close> breaks at the byte \<open>B\<close>, which has no transition, and the
  result is the terminal flag of the transition followed for \<open>A\<close>.
\<close>

theorem Recognizes_accepts_extension:
  "FromChannel (\<lambda>bs. bs) [[0x41]] = Inr [[], [NewTransition 0x41 0 True]] \<and>
   Recognizes [[], [NewTransition 0x41 0 True]] [0x41, 0x42] = Inr True \<and>
   [0x41, 0x42] \<notin> set [[0x41 :: byte]]"
  by code_simp

text \<open>
  C6. Built from the single sequence \<open>A\<close> and enumerated under the length window
  \<open>[0, 0]\<close>, the Recognizer sends \<open>A\<close>, of length 1: \<^const>\<open>IsSmallEnough\<close> is asked
  only before the path is extended, never for the first frame.
\<close>

theorem ConstrainedSequences_window_0_0:
  "FromChannel (\<lambda>bs. bs) [[0x41]] = Inr [[], [NewTransition 0x41 0 True]] \<and>
   ConstrainedSequences [[], [NewTransition 0x41 0 True]]
     \<lparr>IsSmallEnough = (\<lambda>n. n \<le> 0), IsLargeEnough = (\<lambda>n. 0 \<le> n),
      IsValueAllowed = (\<lambda>_ _. True), IsSequenceAllowed = (\<lambda>_. True)\<rparr>
     = Some (Inr [[0x41]]) \<and>
   filter (\<lambda>w. 0 \<le> int (length w) \<and> int (length w) \<le> 0) [[0x41 :: byte]] = []"
  by code_simp

section \<open>The ordering precondition\<close>

lemma bytes_Compare_nonneg_iff: "0 \<le> bytes_Compare a b \<longleftrightarrow> \<not> a < b"
  by (induction a b rule: bytes_Compare.induct) auto

lemma commonPrefixLen_le: "commonPrefixLen a b \<le> length a" "commonPrefixLen a b \<le> length b"
  by (induction a b rule: commonPrefixLen.induct) auto

lemma commonPrefixLen_nth: "j < commonPrefixLen a b \<Longrightarrow> a ! j = b ! j"
proof (induction a b arbitrary: j rule: commonPrefixLen.induct)
  case (1 x xs y ys)
  then show ?case by (cases j) (auto split: if_splits)
qed auto

lemma commonPrefixLen_less:
  "a < b \<Longrightarrow> commonPrefixLen a b < length b \<and>
     (commonPrefixLen a b < length a \<longrightarrow> a ! commonPrefixLen a b < b ! commonPrefixLen a b)"
proof (induction a arbitrary: b)
  case Nil
  then show ?case by (cases b) auto
next
  case (Cons x xs)
  then show ?case by (cases b) auto
qed

lemma makeState_shape:
  "makeState H st b = (i, b1) \<Longrightarrow>
     terminals b1 = terminals b \<and> larvae b1 = larvae b \<and> prevValue b1 = prevValue b"
  by (auto simp add: makeState_def Let_def split: option.splits)

lemma makeSuffixStates_from_shape:
  "shape b \<Longrightarrow> i \<le> length (prevValue b) \<Longrightarrow>
   \<exists>b1. makeSuffixStates_from H p i b = Inr b1 \<and> shape b1 \<and>
        prevValue b1 = prevValue b \<and> terminals b1 = terminals b"
proof (induction i arbitrary: b)
  case 0
  then show ?case by simp
next
  case (Suc j)
  show ?case
  proof (cases "p < Suc j")
    case False
    then show ?thesis using Suc.prems by simp
  next
    case True
    obtain i b1 where ms: "makeState H (larvae b ! Suc j) b = (i, b1)"
      by (cases "makeState H (larvae b ! Suc j) b")
    note keep = makeState_shape [OF ms]
    let ?b2 = "b1\<lparr>larvae := (larvae b1)[j := AddTransition (larvae b1 ! j)
        (NewTransition (prevValue b1 ! j) (int i) (terminals b1 ! Suc j))]\<rparr>"
    have "shape ?b2" using Suc.prems(1) keep by (simp add: shape_def)
    moreover have "j \<le> length (prevValue ?b2)" using Suc.prems(2) keep by simp
    ultimately obtain b3 where
      "makeSuffixStates_from H p j ?b2 = Inr b3" "shape b3"
      "prevValue b3 = prevValue ?b2" "terminals b3 = terminals ?b2"
      using Suc.IH [of ?b2] by blast
    then show ?thesis
      using True Suc.prems ms keep by (simp add: shape_def)
  qed
qed

lemma addValue_out_of_order:
  "\<not> prevValue b < v \<Longrightarrow> addValue H v b = Inl (OutOfOrder (prevValue b) v)"
  by (simp add: addValue_def bytes_Compare_nonneg_iff)

lemma addValue_shape:
  assumes "shape b" and "prevValue b < v"
  shows "\<exists>b1. addValue H v b = Inr b1 \<and> shape b1 \<and> prevValue b1 = v"
proof -
  let ?p = "commonPrefixLen (prevValue b) v"
  have p: "?p \<le> length (prevValue b)" "?p < length v"
    using commonPrefixLen_le(1) commonPrefixLen_less [OF assms(2)] by auto
  obtain b1 where b1: "makeSuffixStates_from H ?p (length (prevValue b)) b = Inr b1"
    "shape b1" "prevValue b1 = prevValue b"
    using makeSuffixStates_from_shape [OF assms(1) le_refl] by blast
  show ?thesis
    using b1 p assms(2)
    by (simp add: addValue_def bytes_Compare_nonneg_iff makeSuffixStates_def Let_def shape_def)
qed

lemma FromChannel_loop_shape:
  "shape b \<Longrightarrow> sorted_wrt (<) (prevValue b # vs) \<Longrightarrow>
   \<exists>b1. FromChannel_loop H vs b = Inr b1 \<and> shape b1 \<and> prevValue b1 = last (prevValue b # vs)"
proof (induction vs arbitrary: b)
  case Nil
  then show ?case by simp
next
  case (Cons v vs)
  from Cons.prems obtain b1 where b1: "addValue H v b = Inr b1" "shape b1" "prevValue b1 = v"
    using addValue_shape [of b v H] by auto
  moreover have "sorted_wrt (<) (prevValue b1 # vs)" using Cons.prems(2) b1(3) by simp
  ultimately show ?case using Cons.IH [of b1] by auto
qed

lemma FromChannel_loop_append:
  "FromChannel_loop H (xs @ ys) b =
     (case FromChannel_loop H xs b of Inl e \<Rightarrow> Inl e | Inr b1 \<Rightarrow> FromChannel_loop H ys b1)"
  by (induction xs arbitrary: b) (auto split: sum.splits)

lemma shape_init: "shape init_builder"
  by (simp add: shape_def init_builder_def)

lemma FromChannel_first_violation:
  assumes "sorted_wrt (<) ([] # pre)" and "\<not> last ([] # pre) < v"
  shows "FromChannel H (pre @ v # post) = Inl (OutOfOrder (last ([] # pre)) v)"
proof -
  have "sorted_wrt (<) (prevValue (init_builder :: 'a builder) # pre)"
    using assms(1) by (simp add: init_builder_def)
  then obtain b1 where b1: "FromChannel_loop H pre init_builder = Inr b1"
    "prevValue b1 = last (prevValue (init_builder :: 'a builder) # pre)"
    using FromChannel_loop_shape [OF shape_init] by blast
  then have "prevValue b1 = last ([] # pre)" by (simp add: init_builder_def)
  then show ?thesis
    using b1(1) assms(2)
    by (simp add: FromChannel_def FromChannel_loop_append addValue_out_of_order)
qed

lemma sorted_wrt_snoc_last:
  "sorted_wrt (<) (xs :: 'a :: order list) \<Longrightarrow> xs \<noteq> [] \<Longrightarrow> last xs < w \<Longrightarrow> sorted_wrt (<) (xs @ [w])"
proof -
  assume a: "sorted_wrt (<) xs" "xs \<noteq> []" "last xs < w"
  have "\<forall>x \<in> set xs. x < w"
  proof
    fix x assume "x \<in> set xs"
    then obtain i where i: "i < length xs" "xs ! i = x" by (auto simp add: in_set_conv_nth)
    show "x < w"
    proof (cases "i = length xs - 1")
      case True
      then show ?thesis using a i by (simp add: last_conv_nth)
    next
      case False
      then have "xs ! i < xs ! (length xs - 1)"
        using sorted_wrt_nth_less [OF a(1), of i "length xs - 1"] i(1) by auto
      then show ?thesis using a i by (simp add: last_conv_nth)
    qed
  qed
  then show ?thesis using a(1) by (simp add: sorted_wrt_append)
qed

lemma first_violation:
  "\<not> sorted_wrt (<) (x # vs) \<Longrightarrow>
   \<exists>pre v post. vs = pre @ v # post \<and> sorted_wrt (<) (x # pre) \<and> \<not> last (x # pre) < v"
  for x :: "'a :: order"
proof (induction vs rule: rev_induct)
  case Nil
  then show ?case by simp
next
  case (snoc w ws)
  show ?case
  proof (cases "sorted_wrt (<) (x # ws)")
    case True
    then have "\<not> last (x # ws) < w"
      using snoc.prems sorted_wrt_snoc_last [of "x # ws" w] by auto
    then show ?thesis using True by blast
  next
    case False
    then obtain pre v post where "ws = pre @ v # post" "sorted_wrt (<) (x # pre)"
      "\<not> last (x # pre) < v"
      using snoc.IH by blast
    then have "ws @ [w] = pre @ v # (post @ [w])" by simp
    then show ?thesis
      using \<open>sorted_wrt (<) (x # pre)\<close> \<open>\<not> last (x # pre) < v\<close> by blast
  qed
qed

text \<open>
  C5. When some item of the input is not strictly greater than the item before it,
  \<^const>\<open>FromChannel\<close> returns no Recognizer: it panics with the ordering violation
  at the first item that is not strictly greater than its predecessor (the empty
  sequence before the first item), which is that item or an earlier one.
\<close>

theorem FromChannel_out_of_order:
  assumes "Suc i < length vs" and "\<not> vs ! i < vs ! Suc i"
  shows "\<exists>pre v post. vs = pre @ v # post \<and> length pre \<le> Suc i \<and>
           sorted_wrt (<) ([] # pre) \<and> \<not> last ([] # pre) < v \<and>
           FromChannel H vs = Inl (OutOfOrder (last ([] # pre)) v)"
proof -
  have "\<not> sorted_wrt (<) ([] # take (Suc (Suc i)) vs)"
  proof
    assume "sorted_wrt (<) ([] # take (Suc (Suc i)) vs)"
    then have "sorted_wrt (<) (take (Suc (Suc i)) vs)" by simp
    then have "take (Suc (Suc i)) vs ! i < take (Suc (Suc i)) vs ! Suc i"
      using sorted_wrt_nth_less [of "(<)" "take (Suc (Suc i)) vs" i "Suc i"] assms(1) by auto
    then show False using assms by simp
  qed
  then obtain pre v post where d: "take (Suc (Suc i)) vs = pre @ v # post"
    "sorted_wrt (<) ([] # pre)" "\<not> last ([] # pre) < v"
    using first_violation by blast
  have "vs = pre @ v # (post @ drop (Suc (Suc i)) vs)"
    using d(1) append_take_drop_id [of "Suc (Suc i)" vs] by (metis append_Cons append_assoc)
  moreover have "length pre \<le> Suc i"
  proof -
    have "length (take (Suc (Suc i)) vs) = Suc (Suc i)" using assms(1) by simp
    then show ?thesis using d(1) by (metis length_append length_Cons add_Suc_right le_add1 Suc_le_mono)
  qed
  ultimately show ?thesis
    using d(2,3) FromChannel_first_violation [OF d(2,3), of H "post @ drop (Suc (Suc i)) vs"]
    by metis
qed
theorem FromChannel_out_of_order_witness:
  "Suc 0 < length [[0x41], [0x41 :: byte]] \<and>
   \<not> [[0x41], [0x41 :: byte]] ! 0 < [[0x41], [0x41]] ! Suc 0 \<and>
   (\<exists>a c. FromChannel (\<lambda>bs. bs) [[0x41], [0x41]] = Inl (OutOfOrder a c))"
proof -
  have h1: "Suc 0 < length [[0x41], [0x41 :: byte]]" by simp
  have h2: "\<not> [[0x41], [0x41 :: byte]] ! 0 < [[0x41], [0x41]] ! Suc 0" by simp
  from FromChannel_out_of_order [OF h1 h2, of "\<lambda>bs. bs"]
  have "\<exists>a c. FromChannel (\<lambda>bs. bs) [[0x41], [0x41]] = Inl (OutOfOrder a c)" by blast
  then show ?thesis using h1 h2 by blast
qed

section \<open>The enumeration is the depth-first traversal\<close>

lemma belowD: "below n st \<Longrightarrow> t \<in> set st \<Longrightarrow> nat (ToState t) < n"
  by (simp add: below_def list_all_iff)

lemma wf_RecognizerD: "wf_Recognizer m \<Longrightarrow> i < length m \<Longrightarrow> below i (m ! i)"
  by (simp add: wf_Recognizer_def list_all_iff)

lemma below_mono: "below k st \<Longrightarrow> k \<le> n \<Longrightarrow> below n st"
  by (auto simp add: below_def list_all_iff)

subsection \<open>Cursor\<close>

lemma AdvanceUntilAllowed_spec:
  "\<exists>c'. AdvanceUntilAllowed a (PathNode st c) = PathNode st c' \<and> c \<le> c' \<and>
        (c \<le> length st \<longrightarrow> c' \<le> length st) \<and>
        (c' < length st \<longrightarrow> a (Trigger (st ! c'))) \<and>
        (\<forall>k. c \<le> k \<and> k < c' \<longrightarrow> \<not> a (Trigger (st ! k)))"
proof (induction "length st - c" arbitrary: c)
  case 0
  then show ?case by (subst AdvanceUntilAllowed.simps) auto
next
  case (Suc d)
  then have lt: "c < length st" by simp
  show ?case
  proof (cases "a (Trigger (st ! c))")
    case True
    then show ?thesis using lt by (subst AdvanceUntilAllowed.simps) auto
  next
    case False
    have "d = length st - Suc c" using Suc.hyps(2) by simp
    from Suc.hyps(1) [OF this] obtain c' where c':
      "AdvanceUntilAllowed a (PathNode st (Suc c)) = PathNode st c'" "Suc c \<le> c'"
      "Suc c \<le> length st \<longrightarrow> c' \<le> length st" "c' < length st \<longrightarrow> a (Trigger (st ! c'))"
      "\<forall>k. Suc c \<le> k \<and> k < c' \<longrightarrow> \<not> a (Trigger (st ! k))"
      by blast
    have "AdvanceUntilAllowed a (PathNode st c) = PathNode st c'"
      using False lt c'(1) by (subst AdvanceUntilAllowed.simps) (simp add: Advance_def)
    moreover have "\<forall>k. c \<le> k \<and> k < c' \<longrightarrow> \<not> a (Trigger (st ! k))"
      using c'(5) False by (metis Suc_leI le_neq_implies_less)
    ultimately show ?thesis using c' lt by auto
  qed
qed

lemma advanceUntilAllowed_spec:
  "\<exists>c'. advanceUntilAllowed con i (PathNode st c) = PathNode st c' \<and> c \<le> c' \<and>
        (c \<le> length st \<longrightarrow> c' \<le> length st) \<and>
        (c' < length st \<longrightarrow> IsValueAllowed con (int i) (Trigger (st ! c'))) \<and>
        (\<forall>k. c \<le> k \<and> k < c' \<longrightarrow> \<not> IsValueAllowed con (int i) (Trigger (st ! k)))"
  unfolding advanceUntilAllowed_def by (rule AdvanceUntilAllowed_spec)

lemma dfs_skip:
  assumes "\<forall>t \<in> set xs. \<not> IsValueAllowed con (int (length pre)) (Trigger t)"
  shows "dfs (Suc n) m con pre (xs @ ys) = dfs (Suc n) m con pre ys"
  using assms by (induction xs) simp_all

lemma dfs_drop_skip:
  assumes "c \<le> c'" "c' \<le> length st"
    and "\<forall>k. c \<le> k \<and> k < c' \<longrightarrow> \<not> IsValueAllowed con (int (length pre)) (Trigger (st ! k))"
  shows "dfs (Suc n) m con pre (drop c st) = dfs (Suc n) m con pre (drop c' st)"
proof -
  have split: "drop c st = take (c' - c) (drop c st) @ drop c' st"
    using assms(1) by (metis append_take_drop_id drop_drop le_add_diff_inverse2)
  have "\<forall>t \<in> set (take (c' - c) (drop c st)). \<not> IsValueAllowed con (int (length pre)) (Trigger t)"
  proof
    fix t assume "t \<in> set (take (c' - c) (drop c st))"
    then obtain j where j: "j < c' - c" "j < length (drop c st)" "t = take (c' - c) (drop c st) ! j"
      by (auto simp add: in_set_conv_nth)
    then have "t = st ! (c + j)" using assms(2) by simp
    then show "\<not> IsValueAllowed con (int (length pre)) (Trigger t)"
      using assms(3) j(1) by simp
  qed
  then show ?thesis using dfs_skip [of "take (c' - c) (drop c st)" con pre n m "drop c' st"] split
    by simp
qed

subsection \<open>popExhausted\<close>

lemma popExhausted_loop_length:
  "length (fst (popExhausted_loop con path n)) = length path"
  by (induction n arbitrary: path) simp_all

lemma popExhausted_eq_take:
  "popExhausted con path =
     take (snd (popExhausted_loop con path (length path)))
       (fst (popExhausted_loop con path (length path)))"
proof -
  obtain p1 size where eq: "popExhausted_loop con path (length path) = (p1, size)"
    by (cases "popExhausted_loop con path (length path)")
  then have "length p1 = length path"
    using popExhausted_loop_length [of con path "length path"] by simp
  then show ?thesis using eq by (simp add: popExhausted_def)
qed

lemma popExhausted_loop_take:
  "n \<le> length path \<Longrightarrow>
   take (snd (popExhausted_loop con path n)) (fst (popExhausted_loop con path n)) =
   take (snd (popExhausted_loop con (take n path) n)) (fst (popExhausted_loop con (take n path) n))"
proof (induction n arbitrary: path)
  case 0
  then show ?case by simp
next
  case (Suc n)
  show ?case
  proof (cases "Exhausted (path ! n)")
    case False
    then show ?thesis using Suc.prems by simp
  next
    case True
    show ?thesis
    proof (cases "0 < n")
      case False
      then show ?thesis using True by simp
    next
      case n: True
      let ?X = "advanceUntilAllowed con (n - 1) (Advance (path ! (n - 1)))"
      have "take n (path[n - 1 := ?X]) = take n ((take (Suc n) path)[n - 1 := ?X])"
        using Suc.prems n by (simp add: take_update_swap)
      then show ?thesis
        using True n Suc.prems Suc.IH [of "path[n - 1 := ?X]"]
          Suc.IH [of "(take (Suc n) path)[n - 1 := ?X]"]
        by simp
    qed
  qed
qed

lemma popExhausted_Nil: "popExhausted con [] = []"
  by (simp add: popExhausted_def)

lemma popExhausted_live:
  "\<not> Exhausted N \<Longrightarrow> popExhausted con (ps @ [N]) = ps @ [N]"
  by (simp add: popExhausted_def)

lemma popExhausted_single: "Exhausted N \<Longrightarrow> popExhausted con [N] = []"
  by (simp add: popExhausted_def)

lemma popExhausted_pop:
  assumes "Exhausted N"
  shows "popExhausted con (ps @ [M, N]) =
         popExhausted con (ps @ [advanceUntilAllowed con (length ps) (Advance M)])"
proof -
  let ?X = "advanceUntilAllowed con (length ps) (Advance M)"
  have "popExhausted_loop con (ps @ [M, N]) (Suc (Suc (length ps))) =
        popExhausted_loop con (ps @ [?X, N]) (Suc (length ps))"
    using assms by (simp add: nth_append)
  then have "popExhausted con (ps @ [M, N]) =
      take (snd (popExhausted_loop con (ps @ [?X, N]) (Suc (length ps))))
        (fst (popExhausted_loop con (ps @ [?X, N]) (Suc (length ps))))"
    by (simp add: popExhausted_eq_take)
  also have "\<dots> = take (snd (popExhausted_loop con (ps @ [?X]) (Suc (length ps))))
        (fst (popExhausted_loop con (ps @ [?X]) (Suc (length ps))))"
    using popExhausted_loop_take [of "Suc (length ps)" "ps @ [?X, N]" con] by simp
  also have "\<dots> = popExhausted con (ps @ [?X])"
    by (simp add: popExhausted_eq_take)
  finally show ?thesis .
qed

lemma popExhausted_idem: "popExhausted con (popExhausted con P) = popExhausted con P"
proof (induction "length P" arbitrary: P rule: less_induct)
  case less
  show ?case
  proof (cases P rule: rev_cases)
    case Nil
    then show ?thesis by (simp add: popExhausted_Nil)
  next
    case (snoc ps N)
    show ?thesis
    proof (cases "Exhausted N")
      case False
      then show ?thesis using snoc by (simp add: popExhausted_live)
    next
      case True
      show ?thesis
      proof (cases ps rule: rev_cases)
        case Nil
        then show ?thesis using True snoc by (simp add: popExhausted_single popExhausted_Nil)
      next
        case (snoc qs M)
        then have P: "P = qs @ [M, N]" using \<open>P = ps @ [N]\<close> by simp
        have "length (qs @ [advanceUntilAllowed con (length qs) (Advance M)]) < length P"
          using P by simp
        from less [OF this] show ?thesis using True P by (simp add: popExhausted_pop)
      qed
    qed
  qed
qed

lemma enum_loop_popExhausted:
  "enum_loop m con (popExhausted con P) out = enum_loop m con P out"
  by (simp add: enum_loop.simps [of m con "popExhausted con P" out]
      enum_loop.simps [of m con P out] popExhausted_idem)


lemma getBytes_snoc:
  "getBytes (ps @ [N]) =
     (case getBytes ps of
        Inl e \<Rightarrow> Inl e
      | Inr bs \<Rightarrow> (case CurrentTransition N of Inl e \<Rightarrow> Inl e | Inr t \<Rightarrow> Inr (bs @ [Trigger t])))"
proof (induction ps)
  case Nil
  then show ?case by (simp split: sum.splits)
next
  case (Cons M ps)
  then show ?case
    by (cases "CurrentTransition M"; cases "getBytes ps"; cases "CurrentTransition N")
      (simp_all add: CurrentTransition_def split: if_splits)
qed

lemma getBytes_length: "getBytes ps = Inr pre \<Longrightarrow> length pre = length ps"
  by (induction ps arbitrary: pre) (auto split: sum.splits)

lemma enum_body_frame:
  assumes "getBytes ps = Inr pre" and "c < length st" and "nat (ToState (st ! c)) < length m"
  shows "enum_body m con (ps @ [PathNode st c]) out =
     Inr (if \<not> IsEmpty (m ! nat (ToState (st ! c))) \<and> IsSmallEnough con (int (length pre) + 2)
          then ps @ [PathNode st c,
                     advanceUntilAllowed con (Suc (length ps)) (PathNode (m ! nat (ToState (st ! c))) 0)]
          else ps @ [advanceUntilAllowed con (length ps) (PathNode st (Suc c))],
          out @ (if IsTerminal (st ! c) \<and> IsLargeEnough con (int (length pre) + 1) \<and>
                    IsSequenceAllowed con (pre @ [Trigger (st ! c)])
                 then [pre @ [Trigger (st ! c)]] else []))"
proof -
  have len: "length pre = length ps" using assms(1) by (rule getBytes_length)
  have adv: "advanceLastUntilAllowed con (qs @ [N]) =
      Inr (qs @ [advanceUntilAllowed con (length qs) N])" for qs N
    by (simp add: advanceLastUntilAllowed_def)
  have adv2: "advanceLastUntilAllowed con (ps @ [PathNode st c, N]) =
      Inr (ps @ [PathNode st c, advanceUntilAllowed con (Suc (length ps)) N])" for N
    using adv [of "ps @ [PathNode st c]" N] by simp
  have cur: "CurrentTransition (PathNode st c) = Inr (st ! c)"
    using assms(2) by (simp add: CurrentTransition_def)
  have gb: "getBytes (ps @ [PathNode st c]) = Inr (pre @ [Trigger (st ! c)])"
    using assms(1) cur by (simp add: getBytes_snoc)
  have upd: "(ps @ [PathNode st c])[length (ps @ [PathNode st c]) - 1 := X] = ps @ [X]" for X
    by simp
  have last: "(ps @ [PathNode st c]) ! (length (ps @ [PathNode st c]) - 1) = PathNode st c"
    by simp
  show ?thesis
    unfolding enum_body_def cur gb upd last
    using assms(3)
    by (cases "IsTerminal (st ! c) \<and> IsLargeEnough con (int (length ps) + 1)";
        cases "IsSequenceAllowed con (pre @ [Trigger (st ! c)])";
        cases "\<not> IsEmpty (m ! nat (ToState (st ! c))) \<and> IsSmallEnough con (int (length ps) + 2)")
      (simp_all add: adv adv2 Advance_def len Let_def add.commute)
qed


lemma dfs_Cons:
  "dfs (Suc n) m con pre (t # ts) =
     (if IsValueAllowed con (int (length pre)) (Trigger t) then
         (if IsTerminal t \<and> IsLargeEnough con (int (length pre) + 1) \<and>
             IsSequenceAllowed con (pre @ [Trigger t])
          then [pre @ [Trigger t]] else []) @
         (if \<not> IsEmpty (m ! nat (ToState t)) \<and> IsSmallEnough con (int (length pre) + 2)
          then dfs n m con (pre @ [Trigger t]) (m ! nat (ToState t)) else [])
       else []) @ dfs (Suc n) m con pre ts"
  by simp

lemma enum_loop_exhausted_top:
  "enum_loop m con (ps @ [M, PathNode st (length st)]) out =
   enum_loop m con (ps @ [advanceUntilAllowed con (length ps) (Advance M)]) out"
proof -
  have "Exhausted (PathNode st (length st))" by (simp add: Exhausted_def)
  then have "popExhausted con (ps @ [M, PathNode st (length st)]) =
      popExhausted con (ps @ [advanceUntilAllowed con (length ps) (Advance M)])"
    by (rule popExhausted_pop)
  then show ?thesis
    using enum_loop_popExhausted [of m con "ps @ [M, PathNode st (length st)]" out]
      enum_loop_popExhausted [of m con "ps @ [advanceUntilAllowed con (length ps) (Advance M)]" out]
    by simp
qed

lemma enum_loop_frame:
  assumes "wf_Recognizer m" and "n \<le> length m" and "getBytes ps = Inr pre"
    and "below n st" and "c \<le> length st"
    and "c < length st \<longrightarrow> IsValueAllowed con (int (length ps)) (Trigger (st ! c))"
  shows "enum_loop m con (ps @ [PathNode st c]) out =
         enum_loop m con (ps @ [PathNode st (length st)])
           (out @ dfs (Suc n) m con pre (drop c st))"
  using assms
proof (induction n arbitrary: ps pre st c out rule: less_induct)
  case (less n)
  note outer = less.IH
  have len: "length pre = length ps" using less.prems(3) by (rule getBytes_length)
  show ?case
    using less.prems(5,6)
  proof (induction "length st - c" arbitrary: c out rule: less_induct)
    case inner: less
    show ?case
    proof (cases "c = length st")
      case True
      then show ?thesis by simp
    next
      case False
      then have c: "c < length st" using inner.prems(1) by simp
      let ?t = "st ! c"
      let ?nx = "m ! nat (ToState ?t)"
      let ?b = "pre @ [Trigger ?t]"
      let ?emit = "if IsTerminal ?t \<and> IsLargeEnough con (int (length pre) + 1) \<and>
                      IsSequenceAllowed con ?b then [?b] else []"
      let ?descend = "\<not> IsEmpty ?nx \<and> IsSmallEnough con (int (length pre) + 2)"
      define emit where "emit = ?emit"
      define kid where "kid = (if ?descend then dfs n m con ?b ?nx else [])"
      define restw where "restw c' = dfs (Suc n) m con pre (drop c' st)" for c'
      have allowed: "IsValueAllowed con (int (length pre)) (Trigger ?t)"
        using inner.prems(2) c len by simp
      have tn: "nat (ToState ?t) < n"
        using less.prems(4) c belowD [of n st "st ! c"] by simp
      then have tm: "nat (ToState ?t) < length m" using less.prems(2) by simp
      have live: "\<not> Exhausted (PathNode st c)" using c by (simp add: Exhausted_def)
      obtain c' where c': "advanceUntilAllowed con (length ps) (PathNode st (Suc c)) = PathNode st c'"
        "Suc c \<le> c'" "c' \<le> length st"
        "c' < length st \<longrightarrow> IsValueAllowed con (int (length ps)) (Trigger (st ! c'))"
        "\<forall>k. Suc c \<le> k \<and> k < c' \<longrightarrow> \<not> IsValueAllowed con (int (length ps)) (Trigger (st ! k))"
        using advanceUntilAllowed_spec [of con "length ps" st "Suc c"] c by auto
      have rest: "dfs (Suc n) m con pre (drop (Suc c) st) = restw c'"
        unfolding restw_def
        using dfs_drop_skip [of "Suc c" c' st con pre n m] c' len by simp
      have "dfs (Suc n) m con pre (?t # drop (Suc c) st) =
          (emit @ kid) @ dfs (Suc n) m con pre (drop (Suc c) st)"
        unfolding emit_def kid_def using allowed by (simp only: dfs_Cons if_True)
      then have unfold_dfs: "dfs (Suc n) m con pre (drop c st) = emit @ kid @ restw c'"
        using rest Cons_nth_drop_Suc [OF c] by simp
      have tail: "enum_loop m con (ps @ [PathNode st c']) out' =
           enum_loop m con (ps @ [PathNode st (length st)]) (out' @ restw c')" for out'
        unfolding restw_def using inner.hyps [of c' out'] c' c by simp
      have step: "enum_loop m con (ps @ [PathNode st c]) out =
          enum_loop m con
            (if ?descend
             then ps @ [PathNode st c, advanceUntilAllowed con (Suc (length ps)) (PathNode ?nx 0)]
             else ps @ [PathNode st c'])
            (out @ emit)"
        unfolding emit_def c'(1) [symmetric]
        using popExhausted_live [OF live, of con ps]
          enum_body_frame [OF less.prems(3) c tm, of con out]
        by (subst enum_loop.simps) (simp del: dfs.simps)
      show ?thesis
      proof (cases ?descend)
        case False
        then have "kid = []" unfolding kid_def by (simp only: if_False)
        then have e: "(out @ emit) @ restw c' = out @ dfs (Suc n) m con pre (drop c st)"
          using unfold_dfs by simp
        have "enum_loop m con (ps @ [PathNode st c]) out =
            enum_loop m con (ps @ [PathNode st c']) (out @ emit)"
          using step False by (simp only: if_False)
        also have "\<dots> = enum_loop m con (ps @ [PathNode st (length st)]) ((out @ emit) @ restw c')"
          by (rule tail)
        finally show ?thesis by (simp only: e)
      next
        case True
        obtain n' where n': "n = Suc n'" using tn by (cases n) auto
        have bx: "below n' ?nx"
          using wf_RecognizerD [OF less.prems(1) tm] tn n' by (auto intro: below_mono)
        obtain c0 where c0: "advanceUntilAllowed con (Suc (length ps)) (PathNode ?nx 0) = PathNode ?nx c0"
          "c0 \<le> length ?nx"
          "c0 < length ?nx \<longrightarrow> IsValueAllowed con (int (Suc (length ps))) (Trigger (?nx ! c0))"
          "\<forall>k. 0 \<le> k \<and> k < c0 \<longrightarrow> \<not> IsValueAllowed con (int (Suc (length ps))) (Trigger (?nx ! k))"
          using advanceUntilAllowed_spec [of con "Suc (length ps)" ?nx 0] by auto
        have gb: "getBytes (ps @ [PathNode st c]) = Inr ?b"
          using less.prems(3) c by (simp add: getBytes_snoc CurrentTransition_def)
        have child0: "enum_loop m con ((ps @ [PathNode st c]) @ [PathNode ?nx c0]) (out @ emit) =
            enum_loop m con ((ps @ [PathNode st c]) @ [PathNode ?nx (length ?nx)])
              ((out @ emit) @ dfs (Suc n') m con ?b (drop c0 ?nx))"
        proof (rule outer [of n'])
          show "n' < n" using n' by simp
          show "wf_Recognizer m" by (rule less.prems(1))
          show "n' \<le> length m" using n' less.prems(2) by simp
          show "getBytes (ps @ [PathNode st c]) = Inr ?b" by (rule gb)
          show "below n' ?nx" by (rule bx)
          show "c0 \<le> length ?nx" by (rule c0(2))
          show "c0 < length ?nx \<longrightarrow>
            IsValueAllowed con (int (length (ps @ [PathNode st c]))) (Trigger (?nx ! c0))"
            using c0(3) by simp
        qed
        then have child: "enum_loop m con (ps @ [PathNode st c, PathNode ?nx c0]) (out @ emit) =
            enum_loop m con (ps @ [PathNode st c, PathNode ?nx (length ?nx)])
              ((out @ emit) @ dfs (Suc n') m con ?b (drop c0 ?nx))"
          by (simp del: dfs.simps)
        have skip0: "dfs (Suc n') m con ?b (drop c0 ?nx) = kid"
          using dfs_drop_skip [of 0 c0 ?nx con ?b n' m] c0 len True n' by (simp add: kid_def)
        have pop: "enum_loop m con (ps @ [PathNode st c, PathNode ?nx (length ?nx)]) out' =
            enum_loop m con (ps @ [PathNode st c']) out'" for out'
          using enum_loop_exhausted_top [of m con ps "PathNode st c" ?nx out'] c'(1)
          by (simp add: Advance_def)
        have e: "((out @ emit) @ kid) @ restw c' = out @ dfs (Suc n) m con pre (drop c st)"
          using unfold_dfs by simp
        have "enum_loop m con (ps @ [PathNode st c]) out =
            enum_loop m con (ps @ [PathNode st c, PathNode ?nx c0]) (out @ emit)"
          using step True c0(1) by (simp only: if_True simp_thms)
        also have "\<dots> = enum_loop m con (ps @ [PathNode st c, PathNode ?nx (length ?nx)])
              ((out @ emit) @ kid)"
          using child skip0 by (simp only:)
        also have "\<dots> = enum_loop m con (ps @ [PathNode st c']) ((out @ emit) @ kid)"
          by (rule pop)
        also have "\<dots> = enum_loop m con (ps @ [PathNode st (length st)])
              (((out @ emit) @ kid) @ restw c')"
          by (rule tail)
        finally show ?thesis by (simp only: e)
      qed
    qed
  qed
qed

lemma ConstrainedSequences_dfs:
  assumes "wf_Recognizer m" and "m \<noteq> []"
  shows "ConstrainedSequences m con = Some (Inr (dfs (length m) m con [] (m ! (length m - 1))))"
proof -
  let ?st = "m ! (length m - 1)"
  obtain n where n: "length m = Suc n" using assms(2) by (cases m) auto
  have b: "below n ?st" using wf_RecognizerD [OF assms(1), of n] n by simp
  obtain c0 where c0: "advanceUntilAllowed con 0 (PathNode ?st 0) = PathNode ?st c0"
    "c0 \<le> length ?st"
    "c0 < length ?st \<longrightarrow> IsValueAllowed con 0 (Trigger (?st ! c0))"
    "\<forall>k. 0 \<le> k \<and> k < c0 \<longrightarrow> \<not> IsValueAllowed con 0 (Trigger (?st ! k))"
    using advanceUntilAllowed_spec [of con 0 ?st 0] by auto
  have "enum_loop m con ([] @ [PathNode ?st c0]) [] =
        enum_loop m con ([] @ [PathNode ?st (length ?st)]) ([] @ dfs (Suc n) m con [] (drop c0 ?st))"
    using enum_loop_frame [of m n "[]" "[]" ?st c0 con "[]"] assms(1) n b c0 by simp
  moreover have "dfs (Suc n) m con [] (drop c0 ?st) = dfs (Suc n) m con [] ?st"
    using dfs_drop_skip [of 0 c0 ?st con "[]" n m] c0 by simp
  moreover have "enum_loop m con [PathNode ?st (length ?st)] out = Some (Inr out)" for out
    by (subst enum_loop.simps) (simp add: popExhausted_single Exhausted_def)
  ultimately show ?thesis
    using assms(2) c0(1) n
    by (simp add: ConstrainedSequences_def Start_def advanceLastUntilAllowed_def)
qed

section \<open>The builder and the sequences of its states\<close>

lemma seqs_extend:
  "wf_Recognizer m \<Longrightarrow> below (length m) st \<Longrightarrow> seqs n (m @ ms) st = seqs n m st"
proof (induction n arbitrary: st)
  case 0
  then show ?case by simp
next
  case (Suc n)
  have "seqs n (m @ ms) ((m @ ms) ! nat (ToState t)) = seqs n m (m ! nat (ToState t))"
    if "t \<in> set st" for t
  proof -
    have k: "nat (ToState t) < length m" using Suc.prems(2) that by (rule belowD)
    then have "below (length m) (m ! nat (ToState t))"
      using wf_RecognizerD [OF Suc.prems(1) k] by (auto intro: below_mono)
    then show ?thesis using Suc.IH [OF Suc.prems(1)] k by (simp add: nth_append)
  qed
  then show ?case by (simp cong: map_cong)
qed

lemma seqs_fuel:
  "wf_Recognizer m \<Longrightarrow> below k st \<Longrightarrow> k \<le> n \<Longrightarrow> k \<le> length m \<Longrightarrow>
   seqs (Suc n) m st = seqs (Suc k) m st"
proof (induction n arbitrary: k st rule: less_induct)
  case (less n)
  have "seqs n m (m ! nat (ToState t)) = seqs k m (m ! nat (ToState t))"
    if "t \<in> set st" for t
  proof -
    let ?j = "nat (ToState t)"
    have j: "?j < k" using less.prems(2) that by (rule belowD)
    then obtain n' k' where nk: "n = Suc n'" "k = Suc k'"
      using less.prems(3) by (cases n; cases k) auto
    have bj: "below ?j (m ! ?j)" using wf_RecognizerD [OF less.prems(1)] j less.prems(4) by simp
    have "seqs (Suc n') m (m ! ?j) = seqs (Suc ?j) m (m ! ?j)"
      using less.IH [of n' ?j "m ! ?j"] nk j less.prems bj by simp
    moreover have "seqs (Suc k') m (m ! ?j) = seqs (Suc ?j) m (m ! ?j)"
      using less.IH [of k' ?j "m ! ?j"] nk j less.prems bj by simp
    ultimately show ?thesis using nk by simp
  qed
  then show ?case by (simp cong: map_cong)
qed

lemma lang_Nil: "lang m [] = []"
  by (simp add: lang_def)

lemma lang_extend:
  assumes "wf_Recognizer m" and "below (length m) st"
  shows "lang (m @ [s]) st = lang m st"
proof -
  have "lang (m @ [s]) st = seqs (Suc (Suc (length m))) m st"
    using seqs_extend [OF assms, of "Suc (Suc (length m))" "[s]"] by (simp add: lang_def)
  also have "\<dots> = seqs (Suc (length m)) m st"
    using seqs_fuel [OF assms, of "Suc (length m)"] by simp
  finally show ?thesis by (simp add: lang_def)
qed

lemma lang_index:
  assumes "wf_Recognizer m" and "j < length m"
  shows "seqs (length m) m (m ! j) = lang m (m ! j)"
proof -
  obtain n0 where n0: "length m = Suc n0" using assms(2) by (cases "length m") auto
  have b: "below j (m ! j)" using wf_RecognizerD [OF assms] .
  have "seqs (Suc n0) m (m ! j) = seqs (Suc j) m (m ! j)"
    using seqs_fuel [OF assms(1) b, of n0] assms(2) n0 by simp
  moreover have "seqs (Suc (length m)) m (m ! j) = seqs (Suc j) m (m ! j)"
    using seqs_fuel [OF assms(1) b, of "length m"] assms(2) by simp
  ultimately show ?thesis using n0 by (simp add: lang_def)
qed

lemma lang_snoc:
  assumes "wf_Recognizer m" and "nat (ToState t) < length m"
  shows "lang m (l1 @ [t]) =
     lang m l1 @ map ((#) (Trigger t))
       ((if IsTerminal t then [[]] else []) @ lang m (m ! nat (ToState t)))"
  using lang_index [OF assms] by (simp add: lang_def)

lemma pend_extend:
  "wf_Recognizer m \<Longrightarrow> \<forall>l \<in> set ls. below (length m) l \<Longrightarrow>
   pend (m @ [s]) ls ts xs = pend m ls ts xs"
  by (induction m ls ts xs rule: pend.induct) (simp_all add: lang_extend)

lemma pend_collapse:
  assumes "lang m l1' = lang m l1 @ map ((#) x) ((if tf then [[]] else []) @ lang m l2)"
  shows "length ls = length xs \<Longrightarrow> length ts = length xs \<Longrightarrow>
     pend m (ls @ [l1, l2]) (ts @ [tf]) (xs @ [x]) = pend m (ls @ [l1']) ts xs"
proof (induction ls arbitrary: ts xs)
  case Nil
  then show ?case using assms by simp
next
  case (Cons l ls)
  then obtain y ys t' ts' where "xs = y # ys" "ts = t' # ts'"
    by (cases xs; cases ts) auto
  then show ?case using Cons by simp
qed

lemma pend_deepest:
  "length ls = length xs \<Longrightarrow> length ts = length xs \<Longrightarrow> w \<in> set (lang m l) \<Longrightarrow>
   xs @ w \<in> set (pend m (ls @ [l]) ts xs)"
proof (induction ls arbitrary: ts xs)
  case Nil
  then show ?case by simp
next
  case (Cons l0 ls)
  then obtain y ys t' ts' where "xs = y # ys" "ts = t' # ts'"
    by (cases xs; cases ts) auto
  then show ?case using Cons by simp
qed

lemma pend_fresh:
  "ys \<noteq> [] \<Longrightarrow>
   pend m (l # replicate (length ys) []) (replicate (length ys - 1) False @ [True]) ys =
   lang m l @ [ys]"
proof (induction ys arbitrary: l)
  case Nil
  then show ?case by simp
next
  case (Cons y ys)
  show ?case
  proof (cases ys)
    case Nil
    then show ?thesis by (simp add: lang_Nil)
  next
    case (Cons y' ys')
    then have "pend m ([] # replicate (length ys) []) (replicate (length ys - 1) False @ [True]) ys
        = lang m [] @ [ys]"
      using Cons.IH [of "[]"] by simp
    then show ?thesis using Cons by (simp add: lang_Nil)
  qed
qed

lemma pend_grow:
  "length ls = length xs \<Longrightarrow> length ts = length xs \<Longrightarrow> ys \<noteq> [] \<Longrightarrow>
   pend m (ls @ l # replicate (length ys) []) (ts @ replicate (length ys - 1) False @ [True])
     (xs @ ys) =
   pend m (ls @ [l]) ts xs @ [xs @ ys]"
proof (induction ls arbitrary: ts xs)
  case Nil
  then show ?case using pend_fresh [of ys m l] by simp
next
  case (Cons l0 ls)
  then obtain y ys' t' ts' where "xs = y # ys'" "ts = t' # ts'"
    by (cases xs; cases ts) auto
  then show ?case using Cons by simp
qed


lemma AddTransition_append:
  assumes "\<forall>t' \<in> set l. t' < t"
  shows "AddTransition l t = l @ [t]"
proof -
  have "Search_loop (\<lambda>x. t \<le> l ! x) 0 (length l) = length l"
  proof (rule Search_loop_all_false)
    fix x assume "0 \<le> x" "x < length l"
    then have "l ! x < t" using assms by simp
    then show "\<not> t \<le> l ! x" by simp
  qed simp
  then show ?thesis by (simp add: AddTransition_def Search_def)
qed

lemma wf_Recognizer_snoc:
  "wf_Recognizer m \<Longrightarrow> below (length m) st \<Longrightarrow> wf_Recognizer (m @ [st])"
  by (simp add: wf_Recognizer_def list_all_iff nth_append)

lemma internedD:
  assumes "interned H b"
  shows "wf_Recognizer (self b)"
    and "states b k = Some j \<Longrightarrow> j < length (self b) \<and> Fingerprint H (self b ! j) = k"
    and "j < length (self b) \<Longrightarrow> states b (Fingerprint H (self b ! j)) = Some j"
  using assms unfolding interned_def by blast+

lemma makeState_interned:
  assumes inj: "inj (Fingerprint H)" and int: "interned H b"
    and bel: "below (length (self b)) st"
  shows "\<exists>i b1. makeState H st b = (i, b1) \<and> i < length (self b1) \<and> i \<le> length (self b) \<and>
           self b1 ! i = st \<and> interned H b1 \<and>
           (self b1 = self b \<or> self b1 = self b @ [st]) \<and>
           terminals b1 = terminals b \<and> larvae b1 = larvae b \<and> prevValue b1 = prevValue b"
proof (cases "states b (Fingerprint H st)")
  case None
  let ?b1 = "b\<lparr>self := self b @ [st], states := (states b)(Fingerprint H st \<mapsto> length (self b))\<rparr>"
  have ms: "makeState H st b = (length (self b), ?b1)"
    using None by (simp add: makeState_def Let_def)
  have fresh: "Fingerprint H (self b ! j) \<noteq> Fingerprint H st" if "j < length (self b)" for j
    using internedD(3) [OF int that] None by auto
  have wf: "wf_Recognizer (self b @ [st])"
    using internedD(1) [OF int] bel by (rule wf_Recognizer_snoc)
  have a: "j < length (self b @ [st]) \<and> Fingerprint H ((self b @ [st]) ! j) = k"
    if "((states b)(Fingerprint H st \<mapsto> length (self b))) k = Some j" for k j
  proof (cases "k = Fingerprint H st")
    case True
    then show ?thesis using that by auto
  next
    case False
    then have "states b k = Some j" using that by simp
    then have "j < length (self b)" "Fingerprint H (self b ! j) = k"
      using internedD(2) [OF int] by blast+
    then show ?thesis by (simp add: nth_append)
  qed
  have c: "((states b)(Fingerprint H st \<mapsto> length (self b))) (Fingerprint H ((self b @ [st]) ! j)) = Some j"
    if "j < length (self b @ [st])" for j
  proof (cases "j = length (self b)")
    case True
    then show ?thesis by simp
  next
    case False
    then have j: "j < length (self b)" using that by simp
    then have "states b (Fingerprint H (self b ! j)) = Some j"
      by (rule internedD(3) [OF int])
    then show ?thesis using fresh [OF j] j by (simp add: nth_append)
  qed
  have "interned H ?b1"
    unfolding interned_def using wf a c by simp
  then show ?thesis using ms by simp
next
  case (Some i)
  then have ms: "makeState H st b = (i, b)" by (simp add: makeState_def Let_def)
  have i: "i < length (self b)" "Fingerprint H (self b ! i) = Fingerprint H st"
    using internedD(2) [OF int Some] by blast+
  then have "self b ! i = st" using inj by (simp add: inj_eq)
  then show ?thesis using ms i int by simp
qed

lemma continuations_snoc:
  assumes "wf_Recognizer m" and "below (length m) st" and "continuations m W"
    and "u \<noteq> []" and "\<forall>w \<in> set (lang m st). u @ w \<in> set W"
  shows "continuations (m @ [st]) W"
  unfolding continuations_def
proof (intro allI impI)
  fix j assume "j < length (m @ [st])"
  then consider "j < length m" | "j = length m" by fastforce
  then show "\<exists>u. u \<noteq> [] \<and> (\<forall>w \<in> set (lang (m @ [st]) ((m @ [st]) ! j)). u @ w \<in> set W)"
  proof cases
    case 1
    then have "below (length m) (m ! j)"
      using wf_RecognizerD [OF assms(1) 1] by (auto intro: below_mono)
    then have "lang (m @ [st]) ((m @ [st]) ! j) = lang m (m ! j)"
      using 1 lang_extend [OF assms(1)] by (simp add: nth_append)
    then show ?thesis using assms(3) 1 by (simp add: continuations_def)
  next
    case 2
    then have "lang (m @ [st]) ((m @ [st]) ! j) = lang m st"
      using lang_extend [OF assms(1,2)] by simp
    then show ?thesis using assms(4,5) by auto
  qed
qed

lemma continuations_mono: "continuations m W \<Longrightarrow> set W \<subseteq> set W' \<Longrightarrow> continuations m W'"
  unfolding continuations_def by (meson subsetD)


lemma binvD:
  assumes "binv H W i b"
  shows "shape b" and "i \<le> length (prevValue b)" and "interned H b"
    and "l \<in> set (larvae b) \<Longrightarrow> below (length (self b)) l"
    and "j < i \<Longrightarrow> t \<in> set (larvae b ! j) \<Longrightarrow> Trigger t < prevValue b ! j"
    and "i < length (prevValue b) \<Longrightarrow> t \<in> set (larvae b ! i) \<Longrightarrow> Trigger t \<le> prevValue b ! i"
    and "i = length (prevValue b) \<Longrightarrow> larvae b ! i = []"
    and "length (self b) + i \<le> sum_list (map length W)"
    and "pend (self b) (take (Suc i) (larvae b)) (take i (tl (terminals b)))
           (take i (prevValue b)) = W"
    and "continuations (self b) W"
  using assms unfolding binv_def by blast+

lemma binvI:
  assumes "shape b" and "i \<le> length (prevValue b)" and "interned H b"
    and "\<And>l. l \<in> set (larvae b) \<Longrightarrow> below (length (self b)) l"
    and "\<And>j t. j < i \<Longrightarrow> t \<in> set (larvae b ! j) \<Longrightarrow> Trigger t < prevValue b ! j"
    and "\<And>t. i < length (prevValue b) \<Longrightarrow> t \<in> set (larvae b ! i) \<Longrightarrow> Trigger t \<le> prevValue b ! i"
    and "i = length (prevValue b) \<Longrightarrow> larvae b ! i = []"
    and "length (self b) + i \<le> sum_list (map length W)"
    and "pend (self b) (take (Suc i) (larvae b)) (take i (tl (terminals b)))
           (take i (prevValue b)) = W"
    and "continuations (self b) W"
  shows "binv H W i b"
  unfolding binv_def using assms by blast

lemma interned_larvae_update [simp]: "interned H (b\<lparr>larvae := x\<rparr>) = interned H b"
  by (simp add: interned_def)

lemma below_snoc: "below n l \<Longrightarrow> nat (ToState t) < n \<Longrightarrow> below n (l @ [t])"
  by (simp add: below_def)

lemma binv_step:
  assumes inj: "inj (Fingerprint H)" and cap: "length (self b1) \<le> 2 ^ 23"
    and inv: "binv H W (Suc j) b"
    and ms: "makeState H (larvae b ! Suc j) b = (i, b1)"
  shows "binv H W j
           (b1\<lparr>larvae := (larvae b1)[j := AddTransition (larvae b1 ! j)
              (NewTransition (prevValue b1 ! j) (int i) (terminals b1 ! Suc j))]\<rparr>)"
    (is "binv H W j ?b2")
proof -
  note sh = binvD(1) [OF inv] and jle = binvD(2) [OF inv] and int = binvD(3) [OF inv]
  have lens: "length (larvae b) = Suc (length (prevValue b))"
    "length (terminals b) = Suc (length (prevValue b))"
    using sh by (simp_all add: shape_def)
  have j: "j < length (prevValue b)" "Suc j < length (larvae b)" "j < length (larvae b)"
    using jle lens by simp_all
  let ?st = "larvae b ! Suc j"
  let ?l1 = "larvae b ! j"
  have st_in: "?st \<in> set (larvae b)" and l1_in: "?l1 \<in> set (larvae b)"
    using j by simp_all
  have st_below: "below (length (self b)) ?st" using binvD(4) [OF inv st_in] .
  have l1_below: "below (length (self b)) ?l1" using binvD(4) [OF inv l1_in] .
  from makeState_interned [OF inj int st_below] ms
  have m: "i < length (self b1)" "i \<le> length (self b)" "self b1 ! i = ?st" "interned H b1"
    "self b1 = self b \<or> self b1 = self b @ [?st]"
    "terminals b1 = terminals b" "larvae b1 = larvae b" "prevValue b1 = prevValue b"
    by auto
  have wf: "wf_Recognizer (self b)" using internedD(1) [OF int] .
  have wf1: "wf_Recognizer (self b1)" using internedD(1) [OF m(4)] .
  have grow: "length (self b) \<le> length (self b1)" "length (self b1) \<le> Suc (length (self b))"
    using m(5) by auto
  have langs: "lang (self b1) l = lang (self b) l" if "below (length (self b)) l" for l
    using m(5) lang_extend [OF wf that] by auto
  \<comment> \<open>the transition\<close>
  let ?t = "NewTransition (prevValue b ! j) (int i) (terminals b ! Suc j)"
  have "i < 2 ^ 23"
    using m(1) cap by simp
  then have "int i mod 2 ^ 23 = int i" by simp
  then have to: "nat (ToState ?t) = i" by (simp add: ToState_NewTransition)
  have tr: "Trigger ?t = prevValue b ! j" by (rule Trigger_NewTransition)
  have te: "IsTerminal ?t = terminals b ! Suc j" by (rule IsTerminal_NewTransition)
  have "\<forall>t' \<in> set ?l1. t' < ?t"
    using binvD(5) [OF inv, of j] tr by (auto intro: Trigger_less_imp_less)
  then have add: "AddTransition ?l1 ?t = ?l1 @ [?t]" by (rule AddTransition_append)
  let ?l1' = "?l1 @ [?t]"
  have b2: "?b2 = b1\<lparr>larvae := (larvae b)[j := ?l1']\<rparr>"
    using m(6,7,8) add by simp
  have l1'_below: "below (length (self b1)) ?l1'"
    using l1_below grow(1) m(1) to by (auto intro: below_snoc below_mono)
  show ?thesis
    unfolding b2
  proof (rule binvI)
    show "shape (b1\<lparr>larvae := (larvae b)[j := ?l1']\<rparr>)"
      using sh m(6,8) by (simp add: shape_def)
    show "j \<le> length (prevValue (b1\<lparr>larvae := (larvae b)[j := ?l1']\<rparr>))"
      using j m(8) by simp
    show "interned H (b1\<lparr>larvae := (larvae b)[j := ?l1']\<rparr>)"
      using m(4) by simp
  next
    fix l assume "l \<in> set (larvae (b1\<lparr>larvae := (larvae b)[j := ?l1']\<rparr>))"
    then have "l = ?l1' \<or> l \<in> set (larvae b)"
      using set_update_subset_insert [of "larvae b" j ?l1'] by auto
    then show "below (length (self (b1\<lparr>larvae := (larvae b)[j := ?l1']\<rparr>))) l"
      using l1'_below binvD(4) [OF inv] grow(1) by (auto intro: below_mono)
  next
    fix j' t assume "j' < j" "t \<in> set (larvae (b1\<lparr>larvae := (larvae b)[j := ?l1']\<rparr>) ! j')"
    then show "Trigger t < prevValue (b1\<lparr>larvae := (larvae b)[j := ?l1']\<rparr>) ! j'"
      using binvD(5) [OF inv, of j' t] m(8) by simp
  next
    fix t assume "t \<in> set (larvae (b1\<lparr>larvae := (larvae b)[j := ?l1']\<rparr>) ! j)"
    then have "t \<in> set ?l1 \<or> t = ?t" using j by auto
    then show "Trigger t \<le> prevValue (b1\<lparr>larvae := (larvae b)[j := ?l1']\<rparr>) ! j"
      using binvD(5) [OF inv, of j t] tr m(8) by auto
  next
    assume "j = length (prevValue (b1\<lparr>larvae := (larvae b)[j := ?l1']\<rparr>))"
    then show "larvae (b1\<lparr>larvae := (larvae b)[j := ?l1']\<rparr>) ! j = []"
      using j m(8) by simp
  next
    show "length (self (b1\<lparr>larvae := (larvae b)[j := ?l1']\<rparr>)) + j \<le> sum_list (map length W)"
      using binvD(8) [OF inv] grow(2) by simp
  next
    have t2: "take (Suc (Suc j)) (larvae b) = take j (larvae b) @ [?l1, ?st]"
      using j by (simp add: take_Suc_conv_app_nth)
    have t1: "take (Suc j) ((larvae b)[j := ?l1']) = take j (larvae b) @ [?l1']"
      using j by (simp add: take_Suc_conv_app_nth)
    have tt: "take (Suc j) (tl (terminals b)) = take j (tl (terminals b)) @ [terminals b ! Suc j]"
      using j lens by (simp add: take_Suc_conv_app_nth nth_tl)
    have tp: "take (Suc j) (prevValue b) = take j (prevValue b) @ [prevValue b ! j]"
      using j by (simp add: take_Suc_conv_app_nth)
    have all_below: "\<forall>l \<in> set (take j (larvae b) @ [?l1, ?st]). below (length (self b)) l"
      using binvD(4) [OF inv] st_in l1_in by (auto dest: in_set_takeD)
    have old: "pend (self b) (take j (larvae b) @ [?l1, ?st])
        (take j (tl (terminals b)) @ [terminals b ! Suc j])
        (take j (prevValue b) @ [prevValue b ! j]) = W"
      using binvD(9) [OF inv] by (simp only: t2 tt tp)
    have old1: "pend (self b1) (take j (larvae b) @ [?l1, ?st])
        (take j (tl (terminals b)) @ [terminals b ! Suc j])
        (take j (prevValue b) @ [prevValue b ! j]) = W"
      using old m(5) pend_extend [OF wf all_below] by auto
    have snoc: "lang (self b1) ?l1' = lang (self b1) ?l1 @ map ((#) (prevValue b ! j))
        ((if terminals b ! Suc j then [[]] else []) @ lang (self b1) ?st)"
      using lang_snoc [OF wf1, of ?t ?l1] m(1,3) to tr te by simp
    have "pend (self b1) (take j (larvae b) @ [?l1']) (take j (tl (terminals b)))
        (take j (prevValue b)) = W"
      using pend_collapse [OF snoc, of "take j (larvae b)" "take j (prevValue b)"
          "take j (tl (terminals b))"] old1 j lens
      by simp
    then show "pend (self (b1\<lparr>larvae := (larvae b)[j := ?l1']\<rparr>))
        (take (Suc j) (larvae (b1\<lparr>larvae := (larvae b)[j := ?l1']\<rparr>)))
        (take j (tl (terminals (b1\<lparr>larvae := (larvae b)[j := ?l1']\<rparr>))))
        (take j (prevValue (b1\<lparr>larvae := (larvae b)[j := ?l1']\<rparr>))) = W"
      using t1 m(6,8) by simp
  next
    have "continuations (self b1) W"
    proof (cases "self b1 = self b")
      case True
      then show ?thesis using binvD(10) [OF inv] by simp
    next
      case False
      then have eq: "self b1 = self b @ [?st]" using m(5) by simp
      have t3: "take (Suc (Suc j)) (larvae b) = take (Suc j) (larvae b) @ [?st]"
        using j by (simp add: take_Suc_conv_app_nth)
      have all: "\<forall>w \<in> set (lang (self b) ?st). take (Suc j) (prevValue b) @ w \<in> set W"
      proof
        fix w assume "w \<in> set (lang (self b) ?st)"
        then have "take (Suc j) (prevValue b) @ w \<in>
            set (pend (self b) (take (Suc j) (larvae b) @ [?st])
              (take (Suc j) (tl (terminals b))) (take (Suc j) (prevValue b)))"
          using j lens by (intro pend_deepest) simp_all
        then show "take (Suc j) (prevValue b) @ w \<in> set W"
          using binvD(9) [OF inv] by (simp only: t3)
      qed
      have ne: "take (Suc j) (prevValue b) \<noteq> []" using j by auto
      show ?thesis
        unfolding eq by (rule continuations_snoc [OF wf st_below binvD(10) [OF inv] ne all])
    qed
    then show "continuations (self (b1\<lparr>larvae := (larvae b)[j := ?l1']\<rparr>)) W" by simp
  qed
qed


lemma makeState_length:
  "makeState H st b = (i, b1) \<Longrightarrow>
     length (self b) \<le> length (self b1) \<and> length (self b1) \<le> Suc (length (self b))"
  by (auto simp add: makeState_def Let_def split: option.splits)

lemma makeSuffixStates_from_length:
  "makeSuffixStates_from H p i b = Inr b' \<Longrightarrow> length (self b) \<le> length (self b')"
proof (induction i arbitrary: b)
  case 0
  then show ?case by simp
next
  case (Suc j)
  show ?case
  proof (cases "p < Suc j \<and> Suc j < length (larvae b) \<and> Suc j < length (terminals b) \<and>
      j < length (prevValue b)")
    case False
    then show ?thesis using Suc.prems by (auto split: if_splits)
  next
    case True
    obtain i b1 where ms: "makeState H (larvae b ! Suc j) b = (i, b1)"
      by (cases "makeState H (larvae b ! Suc j) b")
    let ?br = "b1\<lparr>larvae := (larvae b1)[j := AddTransition (larvae b1 ! j)
              (NewTransition (prevValue b1 ! j) (int i) (terminals b1 ! Suc j))]\<rparr>"
    have "makeSuffixStates_from H p j ?br = Inr b'" using Suc.prems True ms by simp
    then have "length (self ?br) \<le> length (self b')" by (rule Suc.IH)
    then show ?thesis using makeState_length [OF ms] by simp
  qed
qed

lemma addValue_length: "addValue H v b = Inr b' \<Longrightarrow> length (self b) \<le> length (self b')"
  by (auto simp add: addValue_def makeSuffixStates_def Let_def
      split: if_splits sum.splits dest!: makeSuffixStates_from_length)

lemma FromChannel_loop_length:
  "FromChannel_loop H vs b = Inr b' \<Longrightarrow> length (self b) \<le> length (self b')"
proof (induction vs arbitrary: b)
  case Nil
  then show ?case by simp
next
  case (Cons v vs)
  then obtain b1 where "addValue H v b = Inr b1" "FromChannel_loop H vs b1 = Inr b'"
    by (auto split: sum.splits)
  then show ?case using Cons.IH [of b1] addValue_length [of H v b b1] by simp
qed

lemma makeSuffixStates_from_binv:
  assumes inj: "inj (Fingerprint H)"
  shows "binv H W i b \<Longrightarrow> p \<le> i \<Longrightarrow> makeSuffixStates_from H p i b = Inr b' \<Longrightarrow>
     length (self b') \<le> 2 ^ 23 \<Longrightarrow>
     binv H W p b' \<and> prevValue b' = prevValue b \<and> terminals b' = terminals b"
proof (induction i arbitrary: b)
  case 0
  then show ?case by simp
next
  case (Suc j)
  show ?case
  proof (cases "p < Suc j")
    case False
    then have "p = Suc j" using Suc.prems(2) by simp
    then show ?thesis using Suc.prems(1,3) by simp
  next
    case True
    have sh: "shape b" and jle: "Suc j \<le> length (prevValue b)"
      using binvD(1,2) [OF Suc.prems(1)] by simp_all
    then have guard: "Suc j < length (larvae b) \<and> Suc j < length (terminals b) \<and>
        j < length (prevValue b)"
      by (simp add: shape_def)
    obtain i b1 where ms: "makeState H (larvae b ! Suc j) b = (i, b1)"
      by (cases "makeState H (larvae b ! Suc j) b")
    note keep = makeState_shape [OF ms]
    let ?b2 = "b1\<lparr>larvae := (larvae b1)[j := AddTransition (larvae b1 ! j)
              (NewTransition (prevValue b1 ! j) (int i) (terminals b1 ! Suc j))]\<rparr>"
    have run: "makeSuffixStates_from H p j ?b2 = Inr b'"
      using Suc.prems(3) True guard ms by simp
    have "length (self ?b2) \<le> length (self b')"
      using run by (rule makeSuffixStates_from_length)
    then have cap1: "length (self b1) \<le> 2 ^ 23" using Suc.prems(4) by simp
    have "binv H W j ?b2" using binv_step [OF inj cap1 Suc.prems(1) ms] .
    moreover have "p \<le> j" using True by simp
    ultimately have "binv H W p b' \<and> prevValue b' = prevValue ?b2 \<and>
        terminals b' = terminals ?b2"
      using Suc.IH [of ?b2] run Suc.prems(4) by blast
    then show ?thesis using keep by simp
  qed
qed

lemma interned_fields_update [simp]:
  "interned H (b\<lparr>terminals := x, larvae := y, prevValue := z\<rparr>) = interned H b"
  by (simp add: interned_def)

lemma grow_terminals:
  assumes "p < n" and "p < length T"
  shows "(take (Suc p) T @ replicate (n - p) False)[n := True] =
         take (Suc p) T @ replicate (n - p - 1) False @ [True]"
proof -
  obtain k where k: "n - p = Suc k" using assms(1) by (cases "n - p") auto
  then have n: "n = Suc p + k" using assms(1) by simp
  have len: "length (take (Suc p) T) = Suc p" using assms(2) by simp
  have "replicate (Suc k) False = replicate k False @ [False]"
    by (simp add: replicate_append_same)
  then have "(take (Suc p) T @ replicate (n - p) False)[n := True] =
      ((take (Suc p) T @ replicate k False) @ [False])[Suc p + k := True]"
    using k n by simp
  also have "\<dots> = (take (Suc p) T @ replicate k False) @ [True]"
    using len by (subst list_update_append) simp
  finally show ?thesis using k by simp
qed

lemma below_Nil: "below n []"
  by (simp add: below_def)

lemma addValue_binv:
  assumes inj: "inj (Fingerprint H)"
    and inv: "binv H W (length (prevValue b)) b" and lt: "prevValue b < v"
    and run: "addValue H v b = Inr b'" and cap: "length (self b') \<le> 2 ^ 23"
  shows "binv H (W @ [v]) (length v) b' \<and> prevValue b' = v"
proof -
  let ?p = "commonPrefixLen (prevValue b) v"
  have p: "?p \<le> length (prevValue b)" "?p < length v"
    using commonPrefixLen_le(1) commonPrefixLen_less [OF lt] by auto
  obtain b1 where run1: "makeSuffixStates_from H ?p (length (prevValue b)) b = Inr b1"
    and shape1: "shape b1" "prevValue b1 = prevValue b"
    using makeSuffixStates_from_shape [OF binvD(1) [OF inv] le_refl] by blast
  have sh1: "length (larvae b1) = Suc (length (prevValue b))"
    "length (terminals b1) = Suc (length (prevValue b))"
    using shape1 by (simp_all add: shape_def)
  let ?L = "take (?p + 1) (larvae b1) @ replicate (length v - ?p) []"
  let ?T = "(take (?p + 1) (terminals b1) @ replicate (length v - ?p) False)[length v := True]"
  let ?b2 = "b1\<lparr>terminals := ?T, larvae := ?L, prevValue := v\<rparr>"
  have res: "addValue H v b = Inr ?b2"
    using run1 p sh1 lt
    by (simp add: addValue_def bytes_Compare_nonneg_iff makeSuffixStates_def Let_def)
  then have b': "b' = ?b2" using run by simp
  then have cap1: "length (self b1) \<le> 2 ^ 23" using cap by simp
  have b1: "makeSuffixStates_from H ?p (length (prevValue b)) b = Inr b1"
    "binv H W ?p b1" "prevValue b1 = prevValue b" "terminals b1 = terminals b"
    using run1 makeSuffixStates_from_binv [OF inj inv p(1) run1 cap1] by simp_all
  note inv1 = b1(2)
  have Lp: "?L = take ?p (larvae b1) @ larvae b1 ! ?p # replicate (length v - ?p) []"
    using p sh1 by (simp add: take_Suc_conv_app_nth)
  have Lnth: "?L ! j = (if j \<le> ?p then larvae b1 ! j else [])" if "j \<le> length v" for j
    using that p sh1 by (auto simp add: nth_append)
  have Tp: "?T = take (Suc ?p) (terminals b1) @ replicate (length v - ?p - 1) False @ [True]"
    using grow_terminals [of ?p "length v" "terminals b1"] p sh1 by simp
  have tlT: "tl ?T = take ?p (tl (terminals b1)) @ replicate (length v - ?p - 1) False @ [True]"
    unfolding Tp using sh1 by (cases "terminals b1") simp_all
  have "binv H (W @ [v]) (length v) ?b2"
  proof (rule binvI)
    show "shape ?b2" using p sh1 by (simp add: shape_def)
    show "length v \<le> length (prevValue ?b2)" by simp
    show "interned H ?b2" using binvD(3) [OF inv1] by simp
  next
    fix l assume "l \<in> set (larvae ?b2)"
    then have "l = [] \<or> l \<in> set (larvae b1)" by (auto dest: in_set_takeD)
    then show "below (length (self ?b2)) l"
      using binvD(4) [OF inv1] by (auto simp add: below_Nil)
  next
    fix j t assume j: "j < length v" and t: "t \<in> set (larvae ?b2 ! j)"
    have tj: "t \<in> set (if j \<le> ?p then larvae b1 ! j else [])"
      using t Lnth [of j] j by simp
    then have jp: "j \<le> ?p" by (auto split: if_splits)
    show "Trigger t < prevValue ?b2 ! j"
    proof (cases "j < ?p")
      case True
      then show ?thesis
        using binvD(5) [OF inv1 True, of t] tj commonPrefixLen_nth [OF True] b1(3) by simp
    next
      case False
      then have eq: "j = ?p" using jp by simp
      have lt_prev: "?p < length (prevValue b)"
      proof (rule ccontr)
        assume "\<not> ?p < length (prevValue b)"
        then have "?p = length (prevValue b1)" using p(1) b1(3) by simp
        then have "larvae b1 ! ?p = []" using binvD(7) [OF inv1] by simp
        then show False using tj eq by simp
      qed
      then have "Trigger t \<le> prevValue b ! ?p"
        using binvD(6) [OF inv1, of t] tj eq b1(3) by simp
      moreover have "prevValue b ! ?p < v ! ?p"
        using commonPrefixLen_less [OF lt] lt_prev by simp
      ultimately show ?thesis using eq by simp
    qed
  next
    fix t assume "length v < length (prevValue ?b2)"
    then show "Trigger t \<le> prevValue ?b2 ! length v" by simp
  next
    show "larvae ?b2 ! length v = []" using Lnth [of "length v"] p by simp
  next
    show "length (self ?b2) + length v \<le> sum_list (map length (W @ [v]))"
      using binvD(8) [OF inv1] by simp
  next
    let ?ys = "drop ?p v"
    have ys: "?ys \<noteq> []" "length ?ys = length v - ?p" using p by simp_all
    have "take ?p v = take ?p (prevValue b)"
      using p commonPrefixLen_nth [of _ "prevValue b" v] by (intro nth_take_lemma) simp_all
    then have v: "v = take ?p (prevValue b) @ ?ys"
      by (metis append_take_drop_id)
    have old: "pend (self b1) (take ?p (larvae b1) @ [larvae b1 ! ?p])
        (take ?p (tl (terminals b1))) (take ?p (prevValue b)) = W"
      using binvD(9) [OF inv1] p sh1 b1(3) by (simp add: take_Suc_conv_app_nth)
    have "pend (self b1) (take ?p (larvae b1) @ larvae b1 ! ?p # replicate (length ?ys) [])
        (take ?p (tl (terminals b1)) @ replicate (length ?ys - 1) False @ [True])
        (take ?p (prevValue b) @ ?ys) = W @ [take ?p (prevValue b) @ ?ys]"
      using pend_grow [of "take ?p (larvae b1)" "take ?p (prevValue b)"
          "take ?p (tl (terminals b1))" ?ys "self b1" "larvae b1 ! ?p"] old p sh1 ys(1)
      by simp
    then have "pend (self b1) ?L (tl ?T) v = W @ [v]"
      using v ys(2) by (simp only: Lp tlT)
    moreover have "take (Suc (length v)) ?L = ?L" using p sh1 by simp
    moreover have "take (length v) (tl ?T) = tl ?T" using p sh1 by (simp add: tlT)
    ultimately show "pend (self ?b2) (take (Suc (length v)) (larvae ?b2))
        (take (length v) (tl (terminals ?b2))) (take (length v) (prevValue ?b2)) = W @ [v]"
      by simp
  next
    show "continuations (self ?b2) (W @ [v])"
      using continuations_mono [OF binvD(10) [OF inv1], of "W @ [v]"] by auto
  qed
  then show ?thesis unfolding b' by simp
qed


lemma put_uint32_inj: "put_uint32 x = put_uint32 y \<Longrightarrow> x = y"
  by (metis get_put_uint32)

lemma concat_put_uint32_inj:
  "concat (map put_uint32 xs) = concat (map put_uint32 ys) \<Longrightarrow> xs = ys"
proof (induction xs arbitrary: ys)
  case Nil
  show ?case
  proof (cases ys)
    case (Cons y ys')
    then show ?thesis using Nil length_put_uint32 [of y] by auto
  qed simp
next
  case (Cons x xs)
  show ?case
  proof (cases ys)
    case Nil
    then show ?thesis using Cons.prems length_put_uint32 [of x] by auto
  next
    case (Cons y ys')
    then have "put_uint32 x @ concat (map put_uint32 xs) =
        put_uint32 y @ concat (map put_uint32 ys')"
      using Cons.prems by simp
    then have "put_uint32 x = put_uint32 y \<and>
        concat (map put_uint32 xs) = concat (map put_uint32 ys')"
      by (simp add: length_put_uint32)
    then show ?thesis using Cons.IH [of ys'] Cons by (simp add: put_uint32_inj)
  qed
qed

lemma inj_Fingerprint: "inj H \<Longrightarrow> inj (Fingerprint H)"
  by (auto simp add: inj_def Fingerprint_def dest: concat_put_uint32_inj)

lemma binv_init: "binv H [] 0 init_builder"
  by (rule binvI)
    (simp_all add: init_builder_def shape_def interned_def wf_Recognizer_def below_Nil
      continuations_def lang_Nil)

lemma FromChannel_loop_binv:
  assumes inj: "inj (Fingerprint H)"
  shows "binv H W (length (prevValue b)) b \<Longrightarrow> sorted_wrt (<) (prevValue b # vs) \<Longrightarrow>
     FromChannel_loop H vs b = Inr b' \<Longrightarrow> length (self b') \<le> 2 ^ 23 \<Longrightarrow>
     binv H (W @ vs) (length (prevValue b')) b'"
proof (induction vs arbitrary: W b)
  case Nil
  then show ?case by simp
next
  case (Cons v vs)
  have lt: "prevValue b < v" using Cons.prems(2) by simp
  obtain b1 where b1: "addValue H v b = Inr b1" and rest: "FromChannel_loop H vs b1 = Inr b'"
    using Cons.prems(3) by (auto split: sum.splits)
  have "length (self b1) \<le> length (self b')" using rest by (rule FromChannel_loop_length)
  then have cap1: "length (self b1) \<le> 2 ^ 23" using Cons.prems(4) by simp
  have i1: "binv H (W @ [v]) (length v) b1" "prevValue b1 = v"
    using addValue_binv [OF inj Cons.prems(1) lt b1 cap1] by simp_all
  have "binv H ((W @ [v]) @ vs) (length (prevValue b')) b'"
  proof (rule Cons.IH [OF _ _ rest Cons.prems(4)])
    show "binv H (W @ [v]) (length (prevValue b1)) b1" using i1 by simp
    show "sorted_wrt (<) (prevValue b1 # vs)" using Cons.prems(2) i1(2) by simp
  qed
  then show ?case by simp
qed

lemma no_self_extension:
  assumes "W \<noteq> []" and "u \<noteq> []"
  shows "\<not> (\<forall>w \<in> set W. u @ w \<in> set (W :: 'a list list))"
proof
  assume all: "\<forall>w \<in> set W. u @ w \<in> set W"
  let ?n = "Max (length ` set W)"
  have "?n \<in> length ` set W" using assms(1) by (intro Max_in) auto
  then obtain w where w: "w \<in> set W" "length w = ?n" by auto
  then have "u @ w \<in> set W" using all by simp
  then have "length (u @ w) \<in> length ` set W" by (rule imageI)
  then have "length (u @ w) \<le> ?n" by (intro Max_ge) simp_all
  then show False using w(2) assms(2) by simp
qed

lemma finish_binv:
  assumes inj: "inj (Fingerprint H)"
    and inv: "binv H W (length (prevValue b)) b"
    and suffix: "makeSuffixStates H 0 b = Inr b1" and cap: "length (self b1) \<le> 2 ^ 23"
  shows "fst (makeState H (larvae b1 ! 0) b1) = length (self b1) \<and>
           finish H b = Inr (self b1 @ [larvae b1 ! 0]) \<and>
           wf_Recognizer (self b1 @ [larvae b1 ! 0]) \<and>
           lang (self b1) (larvae b1 ! 0) = W"
proof -
  have "makeSuffixStates_from H 0 (length (prevValue b)) b = Inr b1"
    using suffix by (simp add: makeSuffixStates_def)
  from makeSuffixStates_from_binv [OF inj inv _ this cap]
  have b1: "makeSuffixStates H 0 b = Inr b1" "binv H W 0 b1"
    using suffix by simp_all
  let ?root = "larvae b1 ! 0"
  have sh: "length (larvae b1) = Suc (length (prevValue b1))"
    using binvD(1) [OF b1(2)] by (simp add: shape_def)
  then have root_in: "?root \<in> set (larvae b1)" by simp
  have bel: "below (length (self b1)) ?root" using binvD(4) [OF b1(2) root_in] .
  have int: "interned H b1" using binvD(3) [OF b1(2)] .
  have wf: "wf_Recognizer (self b1)" using internedD(1) [OF int] .
  have "take (Suc 0) (larvae b1) = [?root]"
    using sh by (cases "larvae b1") simp_all
  then have lang: "lang (self b1) ?root = W" using binvD(9) [OF b1(2)] by simp
  have new: "states b1 (Fingerprint H ?root) = None"
  proof (cases "states b1 (Fingerprint H ?root)")
    case None
    then show ?thesis .
  next
    case (Some k)
    then have k: "k < length (self b1)" "Fingerprint H (self b1 ! k) = Fingerprint H ?root"
      using internedD(2) [OF int] by blast+
    then have eq: "self b1 ! k = ?root" using inj by (simp add: inj_eq)
    have "W \<noteq> []"
    proof
      assume "W = []"
      then have "length (self b1) = 0" using binvD(8) [OF b1(2)] by simp
      then show False using k(1) by simp
    qed
    moreover obtain u where "u \<noteq> []" "\<forall>w \<in> set (lang (self b1) (self b1 ! k)). u @ w \<in> set W"
      using binvD(10) [OF b1(2)] k(1) unfolding continuations_def by blast
    ultimately show ?thesis using no_self_extension [of W u] eq lang by simp
  qed
  then have ms: "makeState H ?root b1 =
      (length (self b1), b1\<lparr>self := self b1 @ [?root],
         states := (states b1)(Fingerprint H ?root \<mapsto> length (self b1))\<rparr>)"
    by (simp add: makeState_def Let_def)
  then have "finish H b = Inr (self b1 @ [?root])"
    using b1(1) sh by (simp add: finish_def)
  then show ?thesis
    using b1(1) ms lang wf_Recognizer_snoc [OF wf bel] by simp
qed

lemma seqs_Nil: "seqs n m [] = []"
  by (cases n) simp_all

lemma dfs_BaseConstraints:
  "dfs n m BaseConstraints pre st = map ((@) pre) (seqs n m st)"
proof (induction n arbitrary: pre st)
  case 0
  then show ?case by simp
next
  case (Suc n)
  have sel: "IsValueAllowed BaseConstraints i x" "IsLargeEnough BaseConstraints k"
    "IsSmallEnough BaseConstraints k" "IsSequenceAllowed BaseConstraints w" for i x k w
    by (simp_all add: BaseConstraints_def)
  have key: "(if IsTerminal t then [pre @ [Trigger t]] else []) @
        (if \<not> IsEmpty (m ! nat (ToState t))
         then dfs n m BaseConstraints (pre @ [Trigger t]) (m ! nat (ToState t)) else []) =
        map ((@) pre) (map ((#) (Trigger t))
          ((if IsTerminal t then [[]] else []) @ seqs n m (m ! nat (ToState t))))" for t
    using Suc.IH [of "pre @ [Trigger t]" "m ! nat (ToState t)"]
    by (auto simp add: IsEmpty_def seqs_Nil)
  have "dfs (Suc n) m BaseConstraints pre st =
      concat (map (\<lambda>t. (if IsTerminal t then [pre @ [Trigger t]] else []) @
        (if \<not> IsEmpty (m ! nat (ToState t))
         then dfs n m BaseConstraints (pre @ [Trigger t]) (m ! nat (ToState t)) else [])) st)"
    by (simp add: sel)
  also have "\<dots> = concat (map (\<lambda>t. map ((@) pre) (map ((#) (Trigger t))
          ((if IsTerminal t then [[]] else []) @ seqs n m (m ! nat (ToState t))))) st)"
    by (simp only: key)
  also have "\<dots> = map ((@) pre) (seqs (Suc n) m st)"
    by (simp add: map_concat comp_def)
  finally show ?case .
qed

lemma map_append_Nil: "map ((@) []) ws = ws"
  by (induction ws) simp_all

lemma sorted_from_init:
  assumes "sorted_wrt (<) vs" and "[] \<notin> set vs"
  shows "sorted_wrt (<) (prevValue (init_builder :: 'a builder) # vs)"
  using assms by (auto simp add: init_builder_def) (metis list.exhaust Nil_less_Cons)

lemma FromChannel_runs:
  assumes "sorted_wrt (<) vs" and "[] \<notin> set vs"
  shows "\<exists>b b1. FromChannel_loop H vs init_builder = Inr b \<and> makeSuffixStates H 0 b = Inr b1 \<and>
           state_count H vs = length (self b1) \<and> length (self b) \<le> length (self b1)"
proof -
  obtain b where b: "FromChannel_loop H vs init_builder = Inr b" "shape b"
    using FromChannel_loop_shape [OF shape_init sorted_from_init [OF assms]] by blast
  obtain b1 where b1: "makeSuffixStates_from H 0 (length (prevValue b)) b = Inr b1"
    using makeSuffixStates_from_shape [OF b(2) le_refl] by blast
  then have "length (self b) \<le> length (self b1)" by (rule makeSuffixStates_from_length)
  then show ?thesis using b(1) b1 by (simp add: state_count_def makeSuffixStates_def)
qed

lemma FromChannel_correct:
  assumes inj: "inj H" and asc: "sorted_wrt (<) vs" and ne: "[] \<notin> set vs"
    and cap: "state_count H vs \<le> 2 ^ 23"
  shows "\<exists>b b1. FromChannel_loop H vs init_builder = Inr b \<and> makeSuffixStates H 0 b = Inr b1 \<and>
           fst (makeState H (larvae b1 ! 0) b1) = length (self b1) \<and>
           FromChannel H vs = Inr (self b1 @ [larvae b1 ! 0]) \<and>
           wf_Recognizer (self b1 @ [larvae b1 ! 0]) \<and>
           lang (self b1) (larvae b1 ! 0) = vs"
proof -
  note injF = inj_Fingerprint [OF inj]
  obtain b b1 where b: "FromChannel_loop H vs init_builder = Inr b"
    and b1: "makeSuffixStates H 0 b = Inr b1"
    and n: "state_count H vs = length (self b1)" "length (self b) \<le> length (self b1)"
    using FromChannel_runs [OF asc ne] by blast
  have cap1: "length (self b1) \<le> 2 ^ 23" and cap0: "length (self b) \<le> 2 ^ 23"
    using cap n by simp_all
  have "binv H [] (length (prevValue (init_builder :: 'a builder))) init_builder"
    using binv_init [of H] by (simp add: init_builder_def)
  from FromChannel_loop_binv [OF injF this sorted_from_init [OF asc ne] b cap0]
  have "binv H vs (length (prevValue b)) b" by simp
  from finish_binv [OF injF this b1 cap1] b b1 show ?thesis
    by (auto simp add: FromChannel_def)
qed

lemma AllSequences_built:
  assumes "wf_Recognizer m" and "wf_Recognizer (m @ [root])"
  shows "AllSequences (m @ [root]) = Some (Inr (lang m root))"
proof -
  have bel: "below (length m) root"
    using wf_RecognizerD [OF assms(2), of "length m"] by simp
  have "AllSequences (m @ [root]) =
      Some (Inr (dfs (Suc (length m)) (m @ [root]) BaseConstraints [] root))"
    using ConstrainedSequences_dfs [OF assms(2), of BaseConstraints] by (simp add: AllSequences_def)
  also have "dfs (Suc (length m)) (m @ [root]) BaseConstraints [] root =
      seqs (Suc (length m)) (m @ [root]) root"
    by (simp only: dfs_BaseConstraints map_append_Nil)
  also have "\<dots> = lang m root"
    using seqs_extend [OF assms(1) bel] by (simp add: lang_def)
  finally show ?thesis .
qed

lemma build_enumerate:
  assumes "inj H" and "sorted_wrt (<) vs" and "[] \<notin> set vs"
    and "state_count H vs \<le> 2 ^ 23"
  shows "\<exists>r. FromChannel H vs = Inr r \<and> AllSequences r = Some (Inr vs)"
proof -
  from FromChannel_correct [OF assms] obtain b b1 where
    b1: "makeSuffixStates H 0 b = Inr b1" "FromChannel_loop H vs init_builder = Inr b"
    and r: "FromChannel H vs = Inr (self b1 @ [larvae b1 ! 0])"
    "wf_Recognizer (self b1 @ [larvae b1 ! 0])" "lang (self b1) (larvae b1 ! 0) = vs"
    by (elim exE conjE)
  have "wf_Recognizer (self b1)"
    using r(2) by (simp add: wf_Recognizer_def list_all_iff nth_append)
  from AllSequences_built [OF this r(2)] r show ?thesis by simp
qed

section \<open>A single value that repeats one byte\<close>

lemma chain_state_below: "below k (chain_state a k)"
proof (cases k)
  case 0
  then show ?thesis by (simp add: chain_state_def below_Nil)
next
  case (Suc k')
  have "int k' mod 2 ^ 23 \<le> int k'" by (rule zmod_le_nonneg_dividend) simp
  moreover have "0 \<le> int k' mod 2 ^ 23" by simp
  ultimately have "nat (int k' mod 2 ^ 23) < Suc k'" by linarith
  then show ?thesis using Suc by (simp add: chain_state_def below_def ToState_NewTransition)
qed

lemma chain_state_inj:
  assumes "k1 \<le> 2 ^ 23 + 1" and "k2 \<le> 2 ^ 23 + 1" and "chain_state a k1 = chain_state a k2"
  shows "k1 = k2"
proof (cases "k1 = 0 \<or> k2 = 0")
  case True
  then show ?thesis using assms(3) by (auto simp add: chain_state_def split: if_splits)
next
  case False
  then have eq: "NewTransition a (int (k1 - 1)) (k1 = 1) = NewTransition a (int (k2 - 1)) (k2 = 1)"
    using assms(3) by (simp add: chain_state_def)
  from arg_cong [OF eq, of IsTerminal] have t: "(k1 = 1) = (k2 = 1)"
    by (simp add: IsTerminal_NewTransition)
  from arg_cong [OF eq, of ToState] have m: "int (k1 - 1) mod 2 ^ 23 = int (k2 - 1) mod 2 ^ 23"
    by (simp add: ToState_NewTransition)
  show ?thesis
  proof (cases "k1 = 1")
    case True
    then show ?thesis using t by simp
  next
    case ne: False
    define x where "x = int (k1 - 1)"
    define y where "y = int (k2 - 1)"
    have b: "1 \<le> x" "x \<le> 2 ^ 23" "1 \<le> y" "y \<le> 2 ^ 23"
      using False ne t assms(1,2) by (auto simp add: x_def y_def)
    have m': "x mod 2 ^ 23 = y mod 2 ^ 23" using m by (simp add: x_def y_def)
    have r: "z mod 2 ^ 23 = (if z = 2 ^ 23 then 0 else z)" if "1 \<le> z" "z \<le> 2 ^ 23" for z :: int
      using that by auto
    have "(if x = 2 ^ 23 then 0 else x) = (if y = 2 ^ 23 then 0 else y)"
      using m' r [OF b(1,2)] r [OF b(3,4)] by (simp only:)
    then have "x = y" using b by (cases "x = 2 ^ 23"; cases "y = 2 ^ 23") auto
    then show ?thesis using False ne t by (simp add: x_def y_def)
  qed
qed

lemma AddTransition_Nil: "AddTransition [] t = [t]"
  using AddTransition_append [of "[]" t] by simp

lemma chain_loop:
  assumes inj: "inj (Fingerprint H)" and n: "n \<le> 2 ^ 23 + 2"
  shows "i \<le> n \<Longrightarrow> interned H b \<Longrightarrow> self b = map (chain_state a) [0 ..< n - i] \<Longrightarrow>
     length (larvae b) = Suc n \<Longrightarrow> (\<forall>j < i. larvae b ! j = []) \<Longrightarrow>
     larvae b ! i = chain_state a (n - i) \<Longrightarrow>
     prevValue b = replicate n a \<Longrightarrow> terminals b = replicate n False @ [True] \<Longrightarrow>
     \<exists>b'. makeSuffixStates_from H 0 i b = Inr b' \<and> interned H b' \<and>
          self b' = map (chain_state a) [0 ..< n] \<and> larvae b' ! 0 = chain_state a n \<and>
          length (larvae b') = Suc n"
proof (induction i arbitrary: b)
  case 0
  then show ?case by simp
next
  case (Suc j)
  let ?k = "n - Suc j"
  let ?st = "chain_state a ?k"
  have k: "?k \<le> 2 ^ 23 + 1" "Suc ?k = n - j" using n Suc.prems(1) by simp_all
  have st: "larvae b ! Suc j = ?st" using Suc.prems(6) .
  have bel: "below (length (self b)) ?st"
    using chain_state_below [of ?k a] Suc.prems(3) by simp
  have notin: "states b (Fingerprint H ?st) = None"
  proof (cases "states b (Fingerprint H ?st)")
    case None
    then show ?thesis .
  next
    case (Some idx)
    then have idx: "idx < length (self b)" "Fingerprint H (self b ! idx) = Fingerprint H ?st"
      using internedD(2) [OF Suc.prems(2)] by blast+
    then have "self b ! idx = ?st" using inj by (simp add: inj_eq)
    moreover have lt: "self b ! idx = chain_state a idx" "idx < ?k"
      using idx(1) Suc.prems(3) by simp_all
    ultimately have "idx = ?k" using chain_state_inj [of idx ?k a] k(1) by simp
    then show ?thesis using lt(2) by simp
  qed
  let ?b1 = "b\<lparr>self := self b @ [?st],
      states := (states b)(Fingerprint H ?st \<mapsto> length (self b))\<rparr>"
  have ms: "makeState H (larvae b ! Suc j) b = (?k, ?b1)"
    using notin st Suc.prems(3) by (simp add: makeState_def Let_def)
  from makeState_interned [OF inj Suc.prems(2) bel] ms st
  have int1: "interned H ?b1" by auto
  have tflag: "(replicate n False @ [True]) ! Suc j = (?k = 0)"
    using Suc.prems(1) by (auto simp add: nth_append)
  let ?t = "NewTransition (prevValue ?b1 ! j) (int ?k) (terminals ?b1 ! Suc j)"
  have t: "[?t] = chain_state a (Suc ?k)"
    using Suc.prems(1,7,8) tflag by (simp add: chain_state_def)
  let ?b2 = "?b1\<lparr>larvae := (larvae ?b1)[j := AddTransition (larvae ?b1 ! j) ?t]\<rparr>"
  have lj: "larvae ?b1 ! j = []" using Suc.prems(5) by simp
  have step: "makeSuffixStates_from H 0 (Suc j) b = makeSuffixStates_from H 0 j ?b2"
    using ms Suc.prems(1,4,7,8) by simp
  have "\<exists>b'. makeSuffixStates_from H 0 j ?b2 = Inr b' \<and> interned H b' \<and>
          self b' = map (chain_state a) [0 ..< n] \<and> larvae b' ! 0 = chain_state a n \<and>
          length (larvae b') = Suc n"
  proof (rule Suc.IH)
    show "j \<le> n" using Suc.prems(1) by simp
    show "interned H ?b2" using int1 by simp
    show "self ?b2 = map (chain_state a) [0 ..< n - j]"
      unfolding k(2) [symmetric] using Suc.prems(3) by simp
    show "length (larvae ?b2) = Suc n" using Suc.prems(4) by simp
    show "\<forall>j' < j. larvae ?b2 ! j' = []" using Suc.prems(5) by simp
    show "larvae ?b2 ! j = chain_state a (n - j)"
      using lj t k(2) Suc.prems(1,4) by (simp add: AddTransition_Nil)
    show "prevValue ?b2 = replicate n a" using Suc.prems(7) by simp
    show "terminals ?b2 = replicate n False @ [True]" using Suc.prems(8) by simp
  qed
  then show ?case using step by simp
qed

lemma FromChannel_loop_single:
  assumes "0 < n"
  shows "FromChannel_loop H [replicate n a] init_builder =
     Inr \<lparr>self = [], states = Map.empty, terminals = replicate n False @ [True],
          larvae = replicate (Suc n) [], prevValue = replicate n a\<rparr>"
proof -
  obtain n' where n': "n = Suc n'" using assms by (cases n) auto
  have "0 \<le> bytes_Compare [] (replicate n a) \<longleftrightarrow> False"
    using n' by simp
  moreover have "([False] @ replicate n False)[n := True] = replicate n False @ [True]"
    using grow_terminals [of 0 n "[False]"] assms n' by (simp add: replicate_append_same)
  ultimately show ?thesis
    by (simp add: addValue_def init_builder_def makeSuffixStates_def Let_def)
qed

lemma chain_built:
  assumes inj: "inj (Fingerprint H)" and n: "0 < n" "n \<le> 2 ^ 23 + 2"
  shows "\<exists>b b1. FromChannel_loop H [replicate n a] init_builder = Inr b \<and>
     makeSuffixStates H 0 b = Inr b1 \<and> interned H b1 \<and>
     self b1 = map (chain_state a) [0 ..< n] \<and> larvae b1 ! 0 = chain_state a n \<and>
     length (larvae b1) = Suc n"
proof -
  let ?b = "\<lparr>self = [], states = Map.empty, terminals = replicate n False @ [True],
          larvae = replicate (Suc n) [], prevValue = replicate n a\<rparr> :: 'a builder"
  have "\<exists>b'. makeSuffixStates_from H 0 n ?b = Inr b' \<and> interned H b' \<and>
          self b' = map (chain_state a) [0 ..< n] \<and> larvae b' ! 0 = chain_state a n \<and>
          length (larvae b') = Suc n"
  proof (rule chain_loop [OF inj n(2)])
    show "interned H ?b" by (simp add: interned_def wf_Recognizer_def)
    show "larvae ?b ! n = chain_state a (n - n)"
      using nth_replicate [of n "Suc n" "[] :: state"] by (simp add: chain_state_def)
    show "\<forall>j < n. larvae ?b ! j = []" by (simp del: replicate.simps)
  qed simp_all
  then show ?thesis
    using FromChannel_loop_single [OF n(1), of H a] by (simp add: makeSuffixStates_def)
qed


lemma NewTransition_mod: "NewTransition b d f = NewTransition b (d mod 2 ^ 23) f"
proof -
  have e: "d mod 2 ^ 23 = take_bit 23 d" by (simp add: take_bit_eq_mod)
  have "(word_of_int d :: 32 word) AND 0x7fffff = word_of_int (take_bit 23 d) AND 0x7fffff"
    by (rule bit_word_eqI) (auto simp add: bit_simps bit_0x7fffff)
  then show ?thesis by (simp only: NewTransition_def e)
qed

lemma wf_chain: "wf_Recognizer (map (chain_state a) [0 ..< N])"
  by (simp add: wf_Recognizer_def list_all_iff chain_state_below)

lemma finish_new_root:
  assumes "inj (Fingerprint H)" and "interned H b1" and "makeSuffixStates H 0 b = Inr b1"
    and "0 < length (larvae b1)" and "larvae b1 ! 0 \<notin> set (self b1)"
  shows "finish H b = Inr (self b1 @ [larvae b1 ! 0])"
proof -
  have "states b1 (Fingerprint H (larvae b1 ! 0)) = None"
  proof (cases "states b1 (Fingerprint H (larvae b1 ! 0))")
    case None
    then show ?thesis .
  next
    case (Some k)
    then have k: "k < length (self b1)"
      "Fingerprint H (self b1 ! k) = Fingerprint H (larvae b1 ! 0)"
      using internedD(2) [OF assms(2)] by blast+
    then have "self b1 ! k = larvae b1 ! 0" using assms(1) by (simp add: inj_eq)
    then show ?thesis using assms(5) k(1) by (metis nth_mem)
  qed
  then show ?thesis using assms(3,4) by (simp add: finish_def makeState_def Let_def)
qed

lemma FromChannel_single:
  assumes inj: "inj (Fingerprint H)" and n: "0 < n" "n \<le> 2 ^ 23 + 1"
  shows "FromChannel H [replicate n a] = Inr (map (chain_state a) [0 ..< Suc n])"
proof -
  obtain b b1 where b: "FromChannel_loop H [replicate n a] init_builder = Inr b"
    "makeSuffixStates H 0 b = Inr b1" "interned H b1"
    "self b1 = map (chain_state a) [0 ..< n]" "larvae b1 ! 0 = chain_state a n"
    "length (larvae b1) = Suc n"
    using chain_built [OF inj n(1), of a] n(2) by auto
  have "chain_state a n \<notin> set (self b1)"
  proof
    assume "chain_state a n \<in> set (self b1)"
    then obtain k where "k < n" "chain_state a k = chain_state a n"
      using b(4) by auto
    then show False using chain_state_inj [of k n a] n(2) by simp
  qed
  then have "finish H b = Inr (self b1 @ [larvae b1 ! 0])"
    using finish_new_root [OF inj b(3,2)] b(5,6) by simp
  then show ?thesis using b(1,4,5) by (simp add: FromChannel_def)
qed

lemma AllSequences_wrapped:
  "AllSequences (map (chain_state a) [0 ..< Suc (2 ^ 23 + 1)]) = Some (Inr [])"
proof -
  let ?n = "2 ^ 23 + 1 :: nat"
  let ?r = "map (chain_state a) [0 ..< Suc ?n]"
  let ?t = "NewTransition a (2 ^ 23) False"
  have root: "?r ! (length ?r - 1) = [?t]"
    by (simp add: chain_state_def del: upt_Suc)
  have r0: "?r ! nat (ToState ?t) = []"
    by (simp add: ToState_NewTransition chain_state_def del: upt_Suc)
  have "AllSequences ?r = Some (Inr (dfs (length ?r) ?r BaseConstraints [] (?r ! (length ?r - 1))))"
    unfolding AllSequences_def by (rule ConstrainedSequences_dfs) (simp_all add: wf_chain del: upt_Suc)
  also have "dfs (length ?r) ?r BaseConstraints [] (?r ! (length ?r - 1)) =
      seqs (Suc ?n) ?r [?t]"
    by (simp only: dfs_BaseConstraints map_append_Nil root) (simp del: upt_Suc seqs.simps)
  also have "\<dots> = map ((#) (Trigger ?t))
      ((if IsTerminal ?t then [[]] else []) @ seqs ?n ?r (?r ! nat (ToState ?t)))"
    by (simp only: seqs.simps list.map concat.simps append_Nil2)
  also have "\<dots> = []"
    by (simp only: r0 seqs_Nil IsTerminal_NewTransition if_False append_Nil list.map)
  finally show ?thesis .
qed

lemma FromChannel_single_panic:
  assumes inj: "inj (Fingerprint H)"
  shows "FromChannel H [replicate (2 ^ 23 + 2) a] = Inl (UnexpectedStartID 2 (2 ^ 23 + 1))"
proof -
  let ?n = "2 ^ 23 + 2 :: nat"
  obtain b b1 where b: "FromChannel_loop H [replicate ?n a] init_builder = Inr b"
    "makeSuffixStates H 0 b = Inr b1" "interned H b1"
    "self b1 = map (chain_state a) [0 ..< ?n]" "larvae b1 ! 0 = chain_state a ?n"
    "length (larvae b1) = Suc ?n"
    using chain_built [OF inj, of ?n a] by auto
  have "chain_state a ?n = [NewTransition a (2 ^ 23 + 1) False]"
    by (simp add: chain_state_def)
  also have "\<dots> = [NewTransition a 1 False]"
    using NewTransition_mod [of a "2 ^ 23 + 1" False] by simp
  also have "\<dots> = chain_state a 2" by (simp add: chain_state_def)
  finally have "chain_state a ?n = chain_state a 2" .
  moreover have "self b1 ! 2 = chain_state a 2"
    unfolding b(4) using nth_map_upt [of 2 ?n 0 "chain_state a"] by (simp add: numeral_2_eq_2)
  ultimately have root: "larvae b1 ! 0 = self b1 ! 2" using b(5) by simp
  have "states b1 (Fingerprint H (self b1 ! 2)) = Some 2"
    using internedD(3) [OF b(3), of 2] b(4) by simp
  then have "makeState H (larvae b1 ! 0) b1 = (2, b1)"
    using root by (simp add: makeState_def Let_def)
  then have "finish H b = Inl (UnexpectedStartID 2 (int (length (self b1)) - 1))"
    using b(2,6) by (simp add: finish_def b(4))
  then show ?thesis using b(1,4) by (simp add: FromChannel_def)
qed

lemma inj_id_bytes: "inj (\<lambda>bs :: byte list. bs)"
  by (simp add: inj_def)

section \<open>Fingerprints without collisions on the states built\<close>

lemma makeState_grows: "makeState H st b = (i, b1) \<Longrightarrow> set (self b) \<subseteq> set (self b1)"
  by (auto simp add: makeState_def Let_def split: option.splits)

lemma makeSuffixStates_from_grows:
  "makeSuffixStates_from H p i b = Inr b' \<Longrightarrow> set (self b) \<subseteq> set (self b')"
proof (induction i arbitrary: b)
  case 0
  then show ?case by simp
next
  case (Suc j)
  show ?case
  proof (cases "p < Suc j \<and> Suc j < length (larvae b) \<and> Suc j < length (terminals b) \<and>
      j < length (prevValue b)")
    case False
    then show ?thesis using Suc.prems by (auto split: if_splits)
  next
    case True
    obtain i b1 where ms: "makeState H (larvae b ! Suc j) b = (i, b1)"
      by (cases "makeState H (larvae b ! Suc j) b")
    let ?br = "b1\<lparr>larvae := (larvae b1)[j := AddTransition (larvae b1 ! j)
              (NewTransition (prevValue b1 ! j) (int i) (terminals b1 ! Suc j))]\<rparr>"
    have "makeSuffixStates_from H p j ?br = Inr b'" using Suc.prems True ms by simp
    then have "set (self ?br) \<subseteq> set (self b')" by (rule Suc.IH)
    then show ?thesis using makeState_grows [OF ms] by auto
  qed
qed

lemma addValue_grows: "addValue H v b = Inr b' \<Longrightarrow> set (self b) \<subseteq> set (self b')"
  by (auto simp add: addValue_def makeSuffixStates_def Let_def
      split: if_splits sum.splits dest!: makeSuffixStates_from_grows)

lemma FromChannel_loop_grows:
  "FromChannel_loop H vs b = Inr b' \<Longrightarrow> set (self b) \<subseteq> set (self b')"
proof (induction vs arbitrary: b)
  case Nil
  then show ?case by simp
next
  case (Cons v vs)
  then obtain b1 where "addValue H v b = Inr b1" "FromChannel_loop H vs b1 = Inr b'"
    by (auto split: sum.splits)
  then show ?case using Cons.IH [of b1] addValue_grows [of H v b b1] by auto
qed

lemma makeState_fresh_interned:
  assumes int: "interned H b" and bel: "below (length (self b)) st"
    and None: "states b (Fingerprint H st) = None"
  shows "interned H (b\<lparr>self := self b @ [st],
           states := (states b)(Fingerprint H st \<mapsto> length (self b))\<rparr>)"
proof -
  have fresh: "Fingerprint H (self b ! j) \<noteq> Fingerprint H st" if "j < length (self b)" for j
    using internedD(3) [OF int that] None by auto
  have wf: "wf_Recognizer (self b @ [st])"
    using internedD(1) [OF int] bel by (rule wf_Recognizer_snoc)
  have a: "j < length (self b @ [st]) \<and> Fingerprint H ((self b @ [st]) ! j) = k"
    if "((states b)(Fingerprint H st \<mapsto> length (self b))) k = Some j" for k j
  proof (cases "k = Fingerprint H st")
    case True
    then show ?thesis using that by auto
  next
    case False
    then have "states b k = Some j" using that by simp
    then have "j < length (self b)" "Fingerprint H (self b ! j) = k"
      using internedD(2) [OF int] by blast+
    then show ?thesis by (simp add: nth_append)
  qed
  have c: "((states b)(Fingerprint H st \<mapsto> length (self b))) (Fingerprint H ((self b @ [st]) ! j)) = Some j"
    if "j < length (self b @ [st])" for j
  proof (cases "j = length (self b)")
    case True
    then show ?thesis by simp
  next
    case False
    then have j: "j < length (self b)" using that by simp
    then have "states b (Fingerprint H (self b ! j)) = Some j"
      by (rule internedD(3) [OF int])
    then show ?thesis using fresh [OF j] j by (simp add: nth_append)
  qed
  show ?thesis unfolding interned_def using wf a c by simp
qed

lemma same_run_makeState:
  assumes same: "same_run b0 b" and int0: "interned H0 b0" and int: "interned H b"
    and inj0: "inj (Fingerprint H0)" and bel: "below (length (self b0)) st"
    and ms0: "makeState H0 st b0 = (i, b0')"
    and free: "inj_on (Fingerprint H) (set (self b0'))"
  shows "\<exists>b'. makeState H st b = (i, b') \<and> same_run b0' b' \<and> interned H b'"
proof -
  have eq: "self b = self b0" using same by (simp add: same_run_def)
  from makeState_interned [OF inj0 int0 bel] ms0
  have m0: "i < length (self b0')" "self b0' ! i = st"
    "self b0' = self b0 \<or> self b0' = self b0 @ [st]"
    "terminals b0' = terminals b0" "larvae b0' = larvae b0" "prevValue b0' = prevValue b0"
    by auto
  have st_in: "st \<in> set (self b0')" using m0(1,2) by (metis nth_mem)
  have sub: "set (self b0) \<subseteq> set (self b0')" using makeState_grows [OF ms0] .
  show ?thesis
  proof (cases "states b (Fingerprint H st)")
    case (Some k)
    then have k: "k < length (self b)" "Fingerprint H (self b ! k) = Fingerprint H st"
      using internedD(2) [OF int] by blast+
    have "self b ! k \<in> set (self b0')" using k(1) sub eq by auto
    then have stk: "self b0 ! k = st"
      using k(2) st_in free eq by (auto dest: inj_onD)
    then have "states b0 (Fingerprint H0 st) = Some k"
      using internedD(3) [OF int0, of k] k(1) eq by simp
    then have "makeState H0 st b0 = (k, b0)" by (simp add: makeState_def Let_def)
    then have "i = k" "b0' = b0" using ms0 by simp_all
    moreover have "makeState H st b = (k, b)" using Some by (simp add: makeState_def Let_def)
    ultimately show ?thesis using same int by simp
  next
    case None
    have notin: "st \<notin> set (self b)"
    proof
      assume "st \<in> set (self b)"
      then obtain j where "j < length (self b)" "self b ! j = st"
        by (auto simp add: in_set_conv_nth)
      then show False using internedD(3) [OF int, of j] None by simp
    qed
    have "states b0 (Fingerprint H0 st) = None"
    proof (cases "states b0 (Fingerprint H0 st)")
      case (Some j)
      then have "j < length (self b0)" "Fingerprint H0 (self b0 ! j) = Fingerprint H0 st"
        using internedD(2) [OF int0] by blast+
      then have "self b0 ! j = st" "j < length (self b0)" using inj0 by (simp_all add: inj_eq)
      then show ?thesis using notin eq by (metis nth_mem)
    qed simp
    then have "makeState H0 st b0 = (length (self b0), b0\<lparr>self := self b0 @ [st],
        states := (states b0)(Fingerprint H0 st \<mapsto> length (self b0))\<rparr>)"
      by (simp add: makeState_def Let_def)
    then have r0: "i = length (self b0)" "b0' = b0\<lparr>self := self b0 @ [st],
        states := (states b0)(Fingerprint H0 st \<mapsto> length (self b0))\<rparr>"
      using ms0 by simp_all
    let ?b' = "b\<lparr>self := self b @ [st],
        states := (states b)(Fingerprint H st \<mapsto> length (self b))\<rparr>"
    have "makeState H st b = (length (self b), ?b')"
      using None by (simp add: makeState_def Let_def)
    moreover have "interned H ?b'"
      using makeState_fresh_interned [OF int _ None] bel eq by simp
    moreover have "same_run b0' ?b'" using same r0 by (simp add: same_run_def)
    ultimately show ?thesis using r0 eq by simp
  qed
qed

lemma same_run_makeSuffixStates_from:
  assumes inj0: "inj (Fingerprint H0)"
  shows "binv H0 W i b0 \<Longrightarrow> same_run b0 b \<Longrightarrow> interned H b \<Longrightarrow>
     makeSuffixStates_from H0 p i b0 = Inr b0' \<Longrightarrow> inj_on (Fingerprint H) (set (self b0')) \<Longrightarrow>
     length (self b0') \<le> 2 ^ 23 \<Longrightarrow>
     \<exists>b'. makeSuffixStates_from H p i b = Inr b' \<and> same_run b0' b' \<and> interned H b'"
proof (induction i arbitrary: b0 b)
  case 0
  then show ?case by simp
next
  case (Suc j)
  show ?case
  proof (cases "p < Suc j")
    case False
    then show ?thesis using Suc.prems by simp
  next
    case True
    note inv = Suc.prems(1)
    have sh: "shape b0" and jle: "Suc j \<le> length (prevValue b0)"
      using binvD(1,2) [OF inv] by simp_all
    then have guard0: "Suc j < length (larvae b0) \<and> Suc j < length (terminals b0) \<and>
        j < length (prevValue b0)"
      by (simp add: shape_def)
    have fields: "self b = self b0" "larvae b = larvae b0" "terminals b = terminals b0"
      "prevValue b = prevValue b0"
      using Suc.prems(2) by (simp_all add: same_run_def)
    let ?st = "larvae b0 ! Suc j"
    have bel: "below (length (self b0)) ?st"
      using binvD(4) [OF inv, of ?st] guard0 by simp
    obtain i b01 where ms0: "makeState H0 ?st b0 = (i, b01)"
      by (cases "makeState H0 ?st b0")
    let ?t = "\<lambda>pv ts. NewTransition (pv ! j) (int i) (ts ! Suc j)"
    let ?bi = "b01\<lparr>larvae := (larvae b01)[j := AddTransition (larvae b01 ! j)
        (?t (prevValue b01) (terminals b01))]\<rparr>"
    have rest0: "makeSuffixStates_from H0 p j ?bi = Inr b0'"
      using Suc.prems(4) True guard0 ms0 by simp
    have "set (self ?bi) \<subseteq> set (self b0')" using rest0 by (rule makeSuffixStates_from_grows)
    then have free1: "inj_on (Fingerprint H) (set (self b01))"
      using Suc.prems(5) by (auto intro: inj_on_subset)
    obtain b1 where b1: "makeState H ?st b = (i, b1)" "same_run b01 b1" "interned H b1"
      using same_run_makeState [OF Suc.prems(2) binvD(3) [OF inv] Suc.prems(3) inj0 bel ms0 free1]
      by blast
    let ?br = "b1\<lparr>larvae := (larvae b1)[j := AddTransition (larvae b1 ! j)
        (?t (prevValue b1) (terminals b1))]\<rparr>"
    have step: "makeSuffixStates_from H p (Suc j) b = makeSuffixStates_from H p j ?br"
      using True guard0 fields b1(1) by simp
    have same2: "same_run ?bi ?br" using b1(2) by (simp add: same_run_def)
    have "length (self ?bi) \<le> length (self b0')"
      using rest0 by (rule makeSuffixStates_from_length)
    then have cap1: "length (self b01) \<le> 2 ^ 23" using Suc.prems(6) by simp
    have inv2: "binv H0 W j ?bi" using binv_step [OF inj0 cap1 inv ms0] .
    have int2: "interned H ?br" using b1(3) by simp
    from Suc.IH [OF inv2 same2 int2 rest0 Suc.prems(5,6)] step show ?thesis by simp
  qed
qed


lemma addValue_eq:
  assumes sh: "shape b" and lt: "prevValue b < v"
    and run: "makeSuffixStates_from H (commonPrefixLen (prevValue b) v) (length (prevValue b)) b = Inr b1"
  shows "addValue H v b =
     Inr (b1\<lparr>terminals :=
              (take (commonPrefixLen (prevValue b) v + 1) (terminals b1) @
               replicate (length v - commonPrefixLen (prevValue b) v) False)[length v := True],
            larvae := take (commonPrefixLen (prevValue b) v + 1) (larvae b1) @
               replicate (length v - commonPrefixLen (prevValue b) v) [],
            prevValue := v\<rparr>)"
proof -
  let ?p = "commonPrefixLen (prevValue b) v"
  have p: "?p \<le> length (prevValue b)" "?p < length v"
    using commonPrefixLen_le(1) commonPrefixLen_less [OF lt] by auto
  have "shape b1 \<and> prevValue b1 = prevValue b"
    using makeSuffixStates_from_shape [OF sh le_refl, of H ?p] run by auto
  then have "length (larvae b1) = Suc (length (prevValue b))"
    "length (terminals b1) = Suc (length (prevValue b))"
    by (simp_all add: shape_def)
  then show ?thesis
    using run p lt
    by (simp add: addValue_def bytes_Compare_nonneg_iff makeSuffixStates_def Let_def)
qed

lemma same_run_addValue:
  assumes inj0: "inj (Fingerprint H0)"
    and inv: "binv H0 W (length (prevValue b0)) b0" and lt: "prevValue b0 < v"
    and same: "same_run b0 b" and int: "interned H b"
    and run0: "addValue H0 v b0 = Inr b0'"
    and free: "inj_on (Fingerprint H) (set (self b0'))"
    and cap: "length (self b0') \<le> 2 ^ 23"
  shows "\<exists>b'. addValue H v b = Inr b' \<and> same_run b0' b' \<and> interned H b'"
proof -
  let ?p = "commonPrefixLen (prevValue b0) v"
  have fields: "self b = self b0" "larvae b = larvae b0" "terminals b = terminals b0"
    "prevValue b = prevValue b0"
    using same by (simp_all add: same_run_def)
  have p: "?p \<le> length (prevValue b0)" using commonPrefixLen_le(1) .
  have sh0: "shape b0" using binvD(1) [OF inv] .
  then have sh: "shape b" using fields by (simp add: shape_def)
  obtain bi where bi: "makeSuffixStates_from H0 ?p (length (prevValue b0)) b0 = Inr bi"
    using makeSuffixStates_from_shape [OF sh0 le_refl] by blast
  note res0 = addValue_eq [OF sh0 lt bi]
  then have self0: "self b0' = self bi" using run0 by auto
  then have free1: "inj_on (Fingerprint H) (set (self bi))"
    and cap1: "length (self bi) \<le> 2 ^ 23"
    using free cap by simp_all
  obtain br where br: "makeSuffixStates_from H ?p (length (prevValue b0)) b = Inr br"
    "same_run bi br" "interned H br"
    using same_run_makeSuffixStates_from [OF inj0 inv same int bi free1 cap1] by blast
  have "makeSuffixStates_from H (commonPrefixLen (prevValue b) v) (length (prevValue b)) b = Inr br"
    using br(1) fields by simp
  note res = addValue_eq [OF sh _ this]
  have lt': "prevValue b < v" using lt fields by simp
  show ?thesis
    using res [OF lt'] res0 run0 br(2,3) fields
    by (auto simp add: same_run_def)
qed

lemma same_run_FromChannel_loop:
  assumes inj0: "inj (Fingerprint H0)"
  shows "binv H0 W (length (prevValue b0)) b0 \<Longrightarrow> sorted_wrt (<) (prevValue b0 # vs) \<Longrightarrow>
     length (self b0') \<le> 2 ^ 23 \<Longrightarrow> same_run b0 b \<Longrightarrow> interned H b \<Longrightarrow>
     FromChannel_loop H0 vs b0 = Inr b0' \<Longrightarrow> inj_on (Fingerprint H) (set (self b0')) \<Longrightarrow>
     \<exists>b'. FromChannel_loop H vs b = Inr b' \<and> same_run b0' b' \<and> interned H b'"
proof (induction vs arbitrary: W b0 b)
  case Nil
  then show ?case by simp
next
  case (Cons v vs)
  have lt: "prevValue b0 < v" using Cons.prems(2) by simp
  obtain bi where run1: "addValue H0 v b0 = Inr bi" and rest0: "FromChannel_loop H0 vs bi = Inr b0'"
    using Cons.prems(6) by (auto split: sum.splits)
  have "length (self bi) \<le> length (self b0')" using rest0 by (rule FromChannel_loop_length)
  then have cap1: "length (self bi) \<le> 2 ^ 23" using Cons.prems(3) by simp
  have bi: "binv H0 (W @ [v]) (length v) bi" "prevValue bi = v"
    using addValue_binv [OF inj0 Cons.prems(1) lt run1 cap1] by simp_all
  have "set (self bi) \<subseteq> set (self b0')" using rest0 by (rule FromChannel_loop_grows)
  then have free1: "inj_on (Fingerprint H) (set (self bi))"
    using Cons.prems(7) by (auto intro: inj_on_subset)
  obtain br where br: "addValue H v b = Inr br" "same_run bi br" "interned H br"
    using same_run_addValue [OF inj0 Cons.prems(1) lt Cons.prems(4,5) run1 free1 cap1] by blast
  have "\<exists>b'. FromChannel_loop H vs br = Inr b' \<and> same_run b0' b' \<and> interned H b'"
  proof (rule Cons.IH [of "W @ [v]" bi])
    show "binv H0 (W @ [v]) (length (prevValue bi)) bi" using bi by simp
    show "sorted_wrt (<) (prevValue bi # vs)" using Cons.prems(2) bi(2) by simp
  qed (fact Cons.prems(3) br(2) br(3) rest0 Cons.prems(7))+
  then show ?case using br(1) by simp
qed

lemma interned_init: "interned H init_builder"
  by (simp add: interned_def init_builder_def wf_Recognizer_def)

lemma same_run_init: "same_run init_builder init_builder"
  by (simp add: same_run_def init_builder_def)

lemma FromChannel_same_run:
  assumes inj0: "inj H0" and asc: "sorted_wrt (<) vs" and ne: "[] \<notin> set vs"
    and cap: "state_count H0 vs \<le> 2 ^ 23"
    and run0: "FromChannel H0 vs = Inr r"
    and free: "inj_on (Fingerprint H) (set r)"
  shows "\<exists>b b1. FromChannel_loop H vs init_builder = Inr b \<and> makeSuffixStates H 0 b = Inr b1 \<and>
           fst (makeState H (larvae b1 ! 0) b1) = length (self b1) \<and>
           r = self b1 @ [larvae b1 ! 0] \<and> FromChannel H vs = Inr r"
proof -
  note injF = inj_Fingerprint [OF inj0]
  have sorted0: "sorted_wrt (<) (prevValue (init_builder :: 'a builder) # vs)"
    using asc ne by (auto simp add: init_builder_def) (metis list.exhaust Nil_less_Cons)
  have inv_init: "binv H0 [] (length (prevValue (init_builder :: 'a builder))) init_builder"
    using binv_init [of H0] by (simp add: init_builder_def)
  obtain b0 bi where b0: "FromChannel_loop H0 vs init_builder = Inr b0"
    and suf0: "makeSuffixStates H0 0 b0 = Inr bi"
    and n: "state_count H0 vs = length (self bi)" "length (self b0) \<le> length (self bi)"
    using FromChannel_runs [OF asc ne] by blast
  have capi: "length (self bi) \<le> 2 ^ 23" and cap0: "length (self b0) \<le> 2 ^ 23"
    using cap n by simp_all
  have inv0: "binv H0 vs (length (prevValue b0)) b0"
    using FromChannel_loop_binv [OF injF inv_init sorted0 b0 cap0] by simp
  have bi: "makeSuffixStates_from H0 0 (length (prevValue b0)) b0 = Inr bi" "binv H0 vs 0 bi"
    using suf0 makeSuffixStates_from_binv [OF injF inv0 _ _ capi, of 0]
    by (simp_all add: makeSuffixStates_def)
  from finish_binv [OF injF inv0 suf0 capi]
  have fin: "fst (makeState H0 (larvae bi ! 0) bi) = length (self bi)"
    "finish H0 b0 = Inr (self bi @ [larvae bi ! 0])"
    by simp_all
  then have r: "r = self bi @ [larvae bi ! 0]"
    using run0 b0 by (simp add: FromChannel_def)
  obtain bj where ms0: "makeState H0 (larvae bi ! 0) bi = (length (self bi), bj)"
    using fin(1) by (cases "makeState H0 (larvae bi ! 0) bi") auto
  have selfj: "self bj = r"
  proof -
    have "finish H0 b0 = Inr (self bj)"
      using fin(2) bi(1) ms0 binvD(1) [OF bi(2)]
      by (auto simp add: finish_def makeSuffixStates_def shape_def split: if_splits)
    then show ?thesis using fin(2) r by simp
  qed
  have sub1: "set (self bi) \<subseteq> set r" using r by auto
  have sub0: "set (self b0) \<subseteq> set r"
    using makeSuffixStates_from_grows [OF bi(1)] sub1 by auto
  have free0: "inj_on (Fingerprint H) (set (self b0))" and free1: "inj_on (Fingerprint H) (set (self bi))"
    using free sub0 sub1 by (auto intro: inj_on_subset)
  obtain b where b: "FromChannel_loop H vs init_builder = Inr b" "same_run b0 b" "interned H b"
    using same_run_FromChannel_loop [OF injF inv_init sorted0 cap0 same_run_init interned_init b0 free0]
    by blast
  obtain b1 where b1: "makeSuffixStates_from H 0 (length (prevValue b0)) b = Inr b1"
    "same_run bi b1" "interned H b1"
    using same_run_makeSuffixStates_from [OF injF inv0 b(2,3) bi(1) free1 capi] by blast
  have fields: "self b1 = self bi" "larvae b1 = larvae bi" "prevValue b = prevValue b0"
    using b1(2) b(2) by (simp_all add: same_run_def)
  have bel: "below (length (self bi)) (larvae bi ! 0)"
    using binvD(4) [OF bi(2), of "larvae bi ! 0"] binvD(1) [OF bi(2)] by (simp add: shape_def)
  have freej: "inj_on (Fingerprint H) (set (self bj))" using free selfj by simp
  obtain b2 where b2: "makeState H (larvae bi ! 0) b1 = (length (self bi), b2)" "same_run bj b2"
    using same_run_makeState [OF b1(2) binvD(3) [OF bi(2)] b1(3) injF bel ms0 freej] by blast
  have ms: "makeState H (larvae b1 ! 0) b1 = (length (self b1), b2)" using b2(1) fields by simp
  have self2: "self b2 = r" using b2(2) selfj by (simp add: same_run_def)
  have suf: "makeSuffixStates H 0 b = Inr b1"
    using b1(1) fields by (simp add: makeSuffixStates_def)
  have "0 < length (larvae b1)"
    using binvD(1) [OF bi(2)] fields by (simp add: shape_def)
  then have "finish H b = Inr r"
    using suf ms self2 r fields by (simp add: finish_def)
  then show ?thesis using b(1) suf ms r fields by (auto simp add: FromChannel_def)
qed


lemma Start_snoc: "Start (m @ [st]) = Inr st"
  by (simp add: Start_def)

lemma FromChannel_returns:
  assumes "FromChannel H ws = Inr r"
  shows "\<exists>b b1 b2. FromChannel_loop H ws init_builder = Inr b \<and>
           makeSuffixStates H 0 b = Inr b1 \<and>
           makeState H (larvae b1 ! 0) b1 = (length r - 1, b2) \<and> r = self b2 \<and> r \<noteq> []"
proof -
  obtain b where b: "FromChannel_loop H ws init_builder = Inr b" "finish H b = Inr r"
    using assms by (auto simp add: FromChannel_def split: sum.splits)
  then obtain b1 where b1: "makeSuffixStates H 0 b = Inr b1" "0 < length (larvae b1)"
    by (auto simp add: finish_def split: sum.splits if_splits)
  obtain i b2 where ms: "makeState H (larvae b1 ! 0) b1 = (i, b2)"
    by (cases "makeState H (larvae b1 ! 0) b1")
  then have "int i = int (length (self b2)) - 1" "r = self b2"
    using b(2) b1 by (auto simp add: finish_def split: if_splits)
  then have "i = length r - 1" "r \<noteq> []" by auto
  then show ?thesis using b(1) b1(1) ms \<open>r = self b2\<close> by auto
qed

section \<open>Building and enumerating\<close>

text \<open>
  The number of states is at most the number of bytes of the input, and can be much
  smaller: a value that repeats one byte \<open>n\<close> times gives \<open>n\<close> states before the
  start state, and a second value of one greater byte adds none.
\<close>

lemma makeSuffixStates_from_count:
  "makeSuffixStates_from H p i b = Inr b' \<Longrightarrow> p \<le> i \<Longrightarrow>
     length (self b') + p \<le> length (self b) + i"
proof (induction i arbitrary: b)
  case 0
  then show ?case by simp
next
  case (Suc j)
  show ?case
  proof (cases "p < Suc j")
    case False
    then show ?thesis using Suc.prems by simp
  next
    case True
    then have guard: "Suc j < length (larvae b) \<and> Suc j < length (terminals b) \<and>
        j < length (prevValue b)"
      using Suc.prems(1) by (auto split: if_splits)
    obtain i b1 where ms: "makeState H (larvae b ! Suc j) b = (i, b1)"
      by (cases "makeState H (larvae b ! Suc j) b")
    let ?br = "b1\<lparr>larvae := (larvae b1)[j := AddTransition (larvae b1 ! j)
              (NewTransition (prevValue b1 ! j) (int i) (terminals b1 ! Suc j))]\<rparr>"
    have "makeSuffixStates_from H p j ?br = Inr b'" using Suc.prems(1) True guard ms by simp
    moreover have "p \<le> j" using True by simp
    ultimately have "length (self b') + p \<le> length (self ?br) + j" by (rule Suc.IH)
    then show ?thesis using makeState_length [OF ms] by simp
  qed
qed

lemma addValue_count:
  assumes "addValue H v b = Inr b'"
  shows "length (self b') \<le> length (self b) + length (prevValue b) \<and> prevValue b' = v"
proof -
  let ?p = "commonPrefixLen (prevValue b) v"
  from assms obtain b1 where b1: "makeSuffixStates_from H ?p (length (prevValue b)) b = Inr b1"
    and b': "self b' = self b1" "prevValue b' = v"
    by (auto simp add: addValue_def makeSuffixStates_def Let_def split: if_splits sum.splits)
  have "length (self b1) + ?p \<le> length (self b) + length (prevValue b)"
    using b1 commonPrefixLen_le(1) by (rule makeSuffixStates_from_count)
  then show ?thesis using b' by simp
qed

lemma FromChannel_loop_count:
  "FromChannel_loop H vs b = Inr b' \<Longrightarrow>
     length (self b') + length (prevValue b') \<le>
     length (self b) + length (prevValue b) + sum_list (map length vs)"
proof (induction vs arbitrary: b)
  case Nil
  then show ?case by simp
next
  case (Cons v vs)
  then obtain b1 where b1: "addValue H v b = Inr b1" "FromChannel_loop H vs b1 = Inr b'"
    by (auto split: sum.splits)
  show ?case using Cons.IH [OF b1(2)] addValue_count [OF b1(1)] by simp
qed

lemma state_count_le_bytes: "state_count H vs \<le> sum_list (map length vs)"
proof (cases "FromChannel_loop H vs init_builder")
  case (Inl e)
  then show ?thesis by (simp add: state_count_def)
next
  case (Inr b)
  show ?thesis
  proof (cases "makeSuffixStates H 0 b")
    case (Inl e)
    then show ?thesis using Inr by (simp add: state_count_def)
  next
    case b1: (Inr b1)
    then have "length (self b1) + 0 \<le> length (self b) + length (prevValue b)"
      unfolding makeSuffixStates_def by (rule makeSuffixStates_from_count) simp
    moreover have "length (self b) + length (prevValue b) \<le> sum_list (map length vs)"
      using FromChannel_loop_count [OF Inr] by (simp add: init_builder_def)
    ultimately show ?thesis using Inr b1 by (simp add: state_count_def)
  qed
qed

lemma state_count_single:
  assumes "inj (Fingerprint H)" and "0 < n" and "n \<le> 2 ^ 23 + 2"
  shows "state_count H [replicate n a] = n"
proof -
  obtain b b1 where "FromChannel_loop H [replicate n a] init_builder = Inr b"
    "makeSuffixStates H 0 b = Inr b1" "self b1 = map (chain_state a) [0 ..< n]"
    using chain_built [OF assms, of a] by blast
  then show ?thesis by (simp add: state_count_def del: FromChannel_loop.simps)
qed

lemma state_count_two_values:
  assumes inj: "inj (Fingerprint H)" and n: "0 < n" "n \<le> 2 ^ 23 + 2" and ac: "a < c"
  shows "state_count H [replicate n a, [c]] = n"
proof -
  let ?v = "replicate n a"
  obtain b b1 where b: "FromChannel_loop H [?v] init_builder = Inr b"
    and b1: "makeSuffixStates H 0 b = Inr b1" "interned H b1"
    "self b1 = map (chain_state a) [0 ..< n]" "length (larvae b1) = Suc n"
    using chain_built [OF inj n, of a] by blast
  have pv: "prevValue b = ?v" and sh: "shape b"
    using b FromChannel_loop_single [OF n(1), of H a] by (auto simp add: shape_def)
  obtain n' where n': "n = Suc n'" using n(1) by (cases n) auto
  have lt: "prevValue b < [c]" using ac by (simp add: pv n')
  have cpl: "commonPrefixLen (prevValue b) [c] = 0" using ac by (simp add: pv n')
  have run: "makeSuffixStates_from H (commonPrefixLen (prevValue b) [c]) (length (prevValue b)) b
      = Inr b1"
    using b1(1) by (simp only: cpl makeSuffixStates_def)
  let ?b2 = "b1\<lparr>terminals := (take (0 + 1) (terminals b1) @ replicate (length [c] - 0) False)
                  [length [c] := True],
      larvae := take (0 + 1) (larvae b1) @ replicate (length [c] - 0) [], prevValue := [c]\<rparr>"
  have add: "addValue H [c] b = Inr ?b2"
    using addValue_eq [OF sh lt run] by (simp only: cpl)
  have loop: "FromChannel_loop H [?v, [c]] init_builder = Inr ?b2"
    using FromChannel_loop_append [of H "[?v]" "[[c]]" init_builder] b add
    by (simp del: FromChannel_loop.simps replicate.simps) simp
  have "shape b1"
    using makeSuffixStates_from_shape [OF sh le_refl, of H 0] b1(1)
    by (auto simp add: makeSuffixStates_def)
  then have lt1: "0 < length (terminals b1)" by (simp add: shape_def)
  have "self b1 ! 0 = []" using b1(3) n(1) by (simp add: chain_state_def)
  then have "states b1 (Fingerprint H []) = Some 0"
    using internedD(3) [OF b1(2), of 0] b1(3) n(1) by simp
  then have ms: "makeState H [] ?b2 = (0, ?b2)" by (simp add: makeState_def Let_def)
  have l2: "larvae ?b2 = [larvae b1 ! 0, []]"
    using b1(4) by (cases "larvae b1") simp_all
  have t2: "length (terminals ?b2) = 2" using lt1 by (cases "terminals b1") simp_all
  have "\<exists>b3. makeSuffixStates H 0 ?b2 = Inr b3 \<and> self b3 = self b1"
    unfolding makeSuffixStates_def using ms l2 t2 by simp
  then show ?thesis using loop b1(3) by (auto simp add: state_count_def simp del: FromChannel_loop.simps)
qed

lemma two_values_valid:
  assumes "0 < n" and "a < c"
  shows "sorted_wrt (<) [replicate n a, [c]] \<and> [] \<notin> set [replicate n a, [c]]"
proof -
  obtain n' where "n = Suc n'" using assms(1) by (cases n) auto
  then show ?thesis using assms(2) by simp
qed
lemma FromChannel_loop_keeps_shape:
  "shape b \<Longrightarrow> FromChannel_loop H vs b = Inr b' \<Longrightarrow> shape b'"
proof (induction vs arbitrary: b)
  case Nil
  then show ?case by simp
next
  case (Cons v vs)
  then obtain b1 where b1: "addValue H v b = Inr b1" "FromChannel_loop H vs b1 = Inr b'"
    by (auto split: sum.splits)
  have "prevValue b < v"
  proof (rule ccontr)
    assume "\<not> prevValue b < v"
    then show False using addValue_out_of_order [of b v H] b1(1) by simp
  qed
  then have "shape b1" using addValue_shape [OF Cons.prems(1), of v H] b1(1) by auto
  then show ?case using Cons.IH b1(2) by blast
qed

lemma FromChannel_panics:
  assumes "FromChannel_loop H ws init_builder = Inr b" and "makeSuffixStates H 0 b = Inr b1"
    and "makeState H (larvae b1 ! 0) b1 = (i, b2)"
  shows "FromChannel H ws =
     (if int i \<noteq> int (length (self b2)) - 1
      then Inl (UnexpectedStartID (int i) (int (length (self b2)) - 1))
      else Inr (self b2))"
proof -
  have "shape b" using FromChannel_loop_keeps_shape [OF shape_init assms(1)] .
  then have "shape b1"
    using makeSuffixStates_from_shape [OF _ le_refl, of b H 0] assms(2)
    by (auto simp add: makeSuffixStates_def)
  then have "0 < length (larvae b1)" by (simp add: shape_def)
  then show ?thesis using assms by (simp add: FromChannel_def finish_def)
qed

text \<open>
  C2. For distinct non-empty byte sequences supplied in strictly ascending order for
  which the builder interns at most \<open>2 ^ 23\<close> states before the start state, so that
  every state id fits the 23 bits of a destination, \<^const>\<open>FromChannel\<close> returns a
  Recognizer, of one state more, whose unconstrained enumeration sends exactly the
  input, in the same order and without duplicates; this holds for the fingerprint
  that is the written bytes themselves, and for every fingerprint function without
  collisions among the states of that Recognizer, which then builds the same
  Recognizer.
\<close>

theorem build_enumerate_round_trip:
  assumes "sorted_wrt (<) vs" and "[] \<notin> set vs" and "state_count (\<lambda>bs. bs) vs \<le> 2 ^ 23"
  shows "\<exists>r. FromChannel (\<lambda>bs. bs) vs = Inr r \<and> AllSequences r = Some (Inr vs) \<and>
           distinct vs \<and> length r = Suc (state_count (\<lambda>bs. bs) vs) \<and>
           (\<forall>H. inj_on (Fingerprint H) (set r) \<longrightarrow>
                FromChannel H vs = Inr r \<and> AllSequences r = Some (Inr vs))"
proof -
  obtain b b1 :: "byte list builder" where
    run: "FromChannel_loop (\<lambda>bs. bs) vs init_builder = Inr b" "makeSuffixStates (\<lambda>bs. bs) 0 b = Inr b1"
    and r: "FromChannel (\<lambda>bs. bs) vs = Inr (self b1 @ [larvae b1 ! 0])"
    using FromChannel_correct [OF inj_id_bytes assms] by blast
  let ?r = "self b1 @ [larvae b1 ! 0]"
  have n: "length ?r = Suc (state_count (\<lambda>bs. bs) vs)"
    using run by (simp add: state_count_def)
  have enum: "AllSequences ?r = Some (Inr vs)"
    using build_enumerate [OF inj_id_bytes assms] r by auto
  have "distinct vs" using assms(1) strict_sorted_iff by blast
  moreover have "FromChannel H vs = Inr ?r" if "inj_on (Fingerprint H) (set ?r)"
    for H :: "byte list \<Rightarrow> 'a"
    using FromChannel_same_run [OF inj_id_bytes assms r that] by blast
  ultimately show ?thesis using r n enum by blast
qed

theorem build_enumerate_round_trip_witness:
  "sorted_wrt (<) [[0x41], [0x41, 0x42 :: byte]] \<and> [] \<notin> set [[0x41], [0x41, 0x42 :: byte]] \<and>
   state_count (\<lambda>bs. bs) [[0x41], [0x41, 0x42 :: byte]] \<le> 2 ^ 23 \<and>
   (\<exists>r. FromChannel (\<lambda>bs. bs) [[0x41], [0x41, 0x42]] = Inr r \<and>
        AllSequences r = Some (Inr [[0x41], [0x41, 0x42]])) \<and>
   sorted_wrt (<) [replicate (2 ^ 23) 0x41, [0x42 :: byte]] \<and>
   [] \<notin> set [replicate (2 ^ 23) 0x41, [0x42 :: byte]] \<and>
   state_count (\<lambda>bs. bs) [replicate (2 ^ 23) 0x41, [0x42 :: byte]] = 2 ^ 23 \<and>
   sum_list (map length [replicate (2 ^ 23) 0x41, [0x42 :: byte]]) = 2 ^ 23 + 1 \<and>
   (\<exists>r. FromChannel (\<lambda>bs. bs) [replicate (2 ^ 23) 0x41, [0x42]] = Inr r \<and>
        length r = 2 ^ 23 + 1 \<and>
        AllSequences r = Some (Inr [replicate (2 ^ 23) 0x41, [0x42]]))"
proof -
  have h1: "sorted_wrt (<) [[0x41], [0x41, 0x42 :: byte]]" by simp
  have h2: "[] \<notin> set [[0x41], [0x41, 0x42 :: byte]]" by simp
  have "state_count (\<lambda>bs. bs) [[0x41], [0x41, 0x42 :: byte]] = 2" by code_simp
  then have h3: "state_count (\<lambda>bs. bs) [[0x41], [0x41, 0x42 :: byte]] \<le> 2 ^ 23" by simp
  from build_enumerate_round_trip [OF h1 h2 h3, where ?'a = "byte list"]
  have small: "\<exists>r. FromChannel (\<lambda>bs. bs) [[0x41], [0x41, 0x42]] = Inr r \<and>
        AllSequences r = Some (Inr [[0x41], [0x41, 0x42]])"
    by blast
  let ?big = "[replicate (2 ^ 23) 0x41, [0x42 :: byte]]"
  have g: "sorted_wrt (<) ?big \<and> [] \<notin> set ?big"
    by (rule two_values_valid) simp_all
  have g3: "state_count (\<lambda>bs. bs) ?big = 2 ^ 23"
    by (rule state_count_two_values [OF inj_Fingerprint [OF inj_id_bytes]]) simp_all
  then have g3': "state_count (\<lambda>bs. bs) ?big \<le> 2 ^ 23" by simp
  have g4: "sum_list (map length ?big) = 2 ^ 23 + 1" by simp
  from build_enumerate_round_trip [OF conjunct1 [OF g] conjunct2 [OF g] g3', where ?'a = "byte list"]
  have big: "\<exists>r. FromChannel (\<lambda>bs. bs) ?big = Inr r \<and> length r = 2 ^ 23 + 1 \<and>
        AllSequences r = Some (Inr ?big)"
    unfolding g3 by auto
  show ?thesis using h1 h2 h3 small g g3 g4 big by (simp only: simp_thms)
qed

text \<open>
  The bound on the states is needed: the destination of a transition keeps 23 bits.
  From the single value of \<open>2 ^ 23 + 1\<close> bytes \<open>A\<close> the builder interns
  \<open>2 ^ 23 + 1\<close> states before the start state and returns the chain of
  \<open>2 ^ 23 + 2\<close> states whose start state leads to state 0 instead of state \<open>2 ^ 23\<close>,
  and the enumeration sends nothing.
\<close>

theorem build_enumerate_capacity_counterexample:
  "sorted_wrt (<) [replicate (2 ^ 23 + 1) (0x41 :: byte)] \<and>
   [] \<notin> set [replicate (2 ^ 23 + 1) (0x41 :: byte)] \<and>
   state_count (\<lambda>bs. bs) [replicate (2 ^ 23 + 1) (0x41 :: byte)] = 2 ^ 23 + 1 \<and>
   FromChannel (\<lambda>bs. bs) [replicate (2 ^ 23 + 1) 0x41] =
     Inr (map (chain_state 0x41) [0 ..< Suc (2 ^ 23 + 1)]) \<and>
   AllSequences (map (chain_state 0x41) [0 ..< Suc (2 ^ 23 + 1)]) = Some (Inr []) \<and>
   [replicate (2 ^ 23 + 1) (0x41 :: byte)] \<noteq> []"
proof -
  have "replicate (2 ^ 23 + 1) (0x41 :: byte) \<noteq> []" by (simp del: replicate.simps)
  moreover have "FromChannel (\<lambda>bs. bs) [replicate (2 ^ 23 + 1) 0x41] =
     Inr (map (chain_state 0x41) [0 ..< Suc (2 ^ 23 + 1)])"
    by (rule FromChannel_single [OF inj_Fingerprint [OF inj_id_bytes]]) simp_all
  moreover have "state_count (\<lambda>bs. bs) [replicate (2 ^ 23 + 1) (0x41 :: byte)] = 2 ^ 23 + 1"
    by (rule state_count_single [OF inj_Fingerprint [OF inj_id_bytes]]) simp_all
  ultimately show ?thesis
    using AllSequences_wrapped [of "0x41"] by (simp del: replicate.simps upt_Suc)
qed

section \<open>The start state\<close>

text \<open>
  C8. For a valid ascending input for which the builder interns at most \<open>2 ^ 23\<close>
  states before the start state, and a fingerprint function without collisions among
  the states built, the root state is interned last: \<^const>\<open>makeState\<close> gives it the
  fresh index \<open>len - 1\<close>, and \<^const>\<open>Start\<close> of the returned Recognizer is the root.
  And whatever the input and the fingerprint function, a Recognizer is returned only
  when interning the root gave the index \<open>len - 1\<close>, and when interning the root
  gives any other index the builder panics with \<^const>\<open>UnexpectedStartID\<close>.
\<close>

theorem start_state_placement:
  "(sorted_wrt (<) vs \<and> [] \<notin> set vs \<and> state_count (\<lambda>bs. bs) vs \<le> 2 ^ 23 \<longrightarrow>
      (\<exists>r. FromChannel (\<lambda>bs. bs) vs = Inr r \<and>
         (\<forall>H. inj_on (Fingerprint H) (set r) \<longrightarrow>
            (\<exists>b b1. FromChannel_loop H vs init_builder = Inr b \<and>
               makeSuffixStates H 0 b = Inr b1 \<and>
               fst (makeState H (larvae b1 ! 0) b1) = length (self b1) \<and>
               length (self b1) = length r - 1 \<and>
               FromChannel H vs = Inr r \<and> Start r = Inr (larvae b1 ! 0))))) \<and>
   (\<forall>H ws r. FromChannel H ws = Inr r \<longrightarrow>
      (\<exists>b b1 b2. FromChannel_loop H ws init_builder = Inr b \<and>
         makeSuffixStates H 0 b = Inr b1 \<and>
         makeState H (larvae b1 ! 0) b1 = (length r - 1, b2) \<and> r = self b2 \<and> r \<noteq> [])) \<and>
   (\<forall>H ws b b1 i b2.
      FromChannel_loop H ws init_builder = Inr b \<and> makeSuffixStates H 0 b = Inr b1 \<and>
      makeState H (larvae b1 ! 0) b1 = (i, b2) \<and> int i \<noteq> int (length (self b2)) - 1 \<longrightarrow>
      FromChannel H ws = Inl (UnexpectedStartID (int i) (int (length (self b2)) - 1)))"
proof (intro conjI impI allI)
  assume a: "sorted_wrt (<) vs \<and> [] \<notin> set vs \<and> state_count (\<lambda>bs. bs) vs \<le> 2 ^ 23"
  then obtain r where r: "FromChannel (\<lambda>bs. bs) vs = Inr r"
    using build_enumerate [OF inj_id_bytes, of vs] by blast
  have "\<exists>b b1. FromChannel_loop H vs init_builder = Inr b \<and>
               makeSuffixStates H 0 b = Inr b1 \<and>
               fst (makeState H (larvae b1 ! 0) b1) = length (self b1) \<and>
               length (self b1) = length r - 1 \<and>
               FromChannel H vs = Inr r \<and> Start r = Inr (larvae b1 ! 0)"
    if free: "inj_on (Fingerprint H) (set r)" for H :: "byte list \<Rightarrow> 'a"
  proof -
    obtain b b1 where "FromChannel_loop H vs init_builder = Inr b" "makeSuffixStates H 0 b = Inr b1"
      "fst (makeState H (larvae b1 ! 0) b1) = length (self b1)"
      "r = self b1 @ [larvae b1 ! 0]" "FromChannel H vs = Inr r"
      using FromChannel_same_run [OF inj_id_bytes _ _ _ r free] a by blast
    then show ?thesis using Start_snoc [of "self b1" "larvae b1 ! 0"] by auto
  qed
  then show "\<exists>r. FromChannel (\<lambda>bs. bs) vs = Inr r \<and>
         (\<forall>H :: byte list \<Rightarrow> 'a. inj_on (Fingerprint H) (set r) \<longrightarrow>
            (\<exists>b b1. FromChannel_loop H vs init_builder = Inr b \<and>
               makeSuffixStates H 0 b = Inr b1 \<and>
               fst (makeState H (larvae b1 ! 0) b1) = length (self b1) \<and>
               length (self b1) = length r - 1 \<and>
               FromChannel H vs = Inr r \<and> Start r = Inr (larvae b1 ! 0)))"
    using r by blast
next
  fix H :: "byte list \<Rightarrow> 'b" and ws r
  assume "FromChannel H ws = Inr r"
  then show "\<exists>b b1 b2. FromChannel_loop H ws init_builder = Inr b \<and>
         makeSuffixStates H 0 b = Inr b1 \<and>
         makeState H (larvae b1 ! 0) b1 = (length r - 1, b2) \<and> r = self b2 \<and> r \<noteq> []"
    by (rule FromChannel_returns)
next
  fix H :: "byte list \<Rightarrow> 'c" and ws b b1 i b2
  assume "FromChannel_loop H ws init_builder = Inr b \<and> makeSuffixStates H 0 b = Inr b1 \<and>
      makeState H (larvae b1 ! 0) b1 = (i, b2) \<and> int i \<noteq> int (length (self b2)) - 1"
  then show "FromChannel H ws = Inl (UnexpectedStartID (int i) (int (length (self b2)) - 1))"
    using FromChannel_panics [of H ws b b1 i b2] by simp
qed

theorem start_state_placement_witness:
  "sorted_wrt (<) [[0x41 :: byte]] \<and> [] \<notin> set [[0x41 :: byte]] \<and>
   state_count (\<lambda>bs. bs) [[0x41 :: byte]] \<le> 2 ^ 23 \<and>
   FromChannel (\<lambda>bs. bs) [[0x41]] = Inr [[], [NewTransition 0x41 0 True]] \<and>
   inj_on (Fingerprint (\<lambda>bs. bs)) (set [[], [NewTransition 0x41 0 True]]) \<and>
   Start [[], [NewTransition 0x41 0 True]] = Inr [NewTransition 0x41 0 True] \<and>
   (\<exists>b b1 b2. FromChannel_loop (\<lambda>bs. bs) [[0x41]] init_builder = Inr b \<and>
      makeSuffixStates (\<lambda>bs. bs) 0 b = Inr b1 \<and>
      makeState (\<lambda>bs. bs) (larvae b1 ! 0) b1 = (1, b2) \<and>
      self b2 = [[], [NewTransition 0x41 0 True]]) \<and>
   FromChannel (\<lambda>bs. take 1 bs) [[0x41, 0x41], [0x42, 0x43]] = Inl (UnexpectedStartID 1 2) \<and>
   (\<exists>b b1 i b2.
      FromChannel_loop (\<lambda>bs. take 1 bs) [[0x41, 0x41], [0x42, 0x43]] init_builder = Inr b \<and>
      makeSuffixStates (\<lambda>bs. take 1 bs) 0 b = Inr b1 \<and>
      makeState (\<lambda>bs. take 1 bs) (larvae b1 ! 0) b1 = (i, b2) \<and>
      int i \<noteq> int (length (self b2)) - 1 \<and>
      FromChannel (\<lambda>bs. take 1 bs) [[0x41, 0x41], [0x42, 0x43]] =
        Inl (UnexpectedStartID (int i) (int (length (self b2)) - 1))) \<and>
   sorted_wrt (<) [replicate (2 ^ 23) 0x41, [0x42 :: byte]] \<and>
   [] \<notin> set [replicate (2 ^ 23) 0x41, [0x42 :: byte]] \<and>
   state_count (\<lambda>bs. bs) [replicate (2 ^ 23) 0x41, [0x42 :: byte]] = 2 ^ 23 \<and>
   sum_list (map length [replicate (2 ^ 23) 0x41, [0x42 :: byte]]) = 2 ^ 23 + 1 \<and>
   (\<exists>r b b1. FromChannel (\<lambda>bs. bs) [replicate (2 ^ 23) 0x41, [0x42]] = Inr r \<and>
      FromChannel_loop (\<lambda>bs. bs) [replicate (2 ^ 23) 0x41, [0x42]] init_builder = Inr b \<and>
      makeSuffixStates (\<lambda>bs. bs) 0 b = Inr b1 \<and>
      fst (makeState (\<lambda>bs. bs) (larvae b1 ! 0) b1) = length (self b1) \<and>
      length (self b1) = length r - 1 \<and> Start r = Inr (larvae b1 ! 0))"
proof -
  have "state_count (\<lambda>bs. bs) [[0x41 :: byte]] = 1" by code_simp
  then have h: "sorted_wrt (<) [[0x41 :: byte]] \<and> [] \<notin> set [[0x41 :: byte]] \<and>
      state_count (\<lambda>bs. bs) [[0x41 :: byte]] \<le> 2 ^ 23" by simp
  have run: "FromChannel (\<lambda>bs. bs) [[0x41]] = Inr [[], [NewTransition 0x41 0 True]]"
    by code_simp
  have free: "inj_on (Fingerprint (\<lambda>bs. bs)) (set [[], [NewTransition 0x41 0 True]])"
    using inj_Fingerprint [OF inj_id_bytes] by (rule inj_on_subset) simp
  have st: "Start [[], [NewTransition 0x41 0 True]] = Inr [NewTransition 0x41 0 True]"
    by (simp add: Start_def)
  have panic: "FromChannel (\<lambda>bs. take 1 bs) [[0x41, 0x41], [0x42, 0x43]] =
      Inl (UnexpectedStartID 1 2)"
    by code_simp
  note returned = start_state_placement [of "[[0x41]]", where ?'a = "byte list"
      and ?'b = "byte list" and ?'c = "byte list", THEN conjunct2, THEN conjunct1,
      rule_format, OF run]
  then have small: "\<exists>b b1 b2. FromChannel_loop (\<lambda>bs. bs) [[0x41]] init_builder = Inr b \<and>
      makeSuffixStates (\<lambda>bs. bs) 0 b = Inr b1 \<and>
      makeState (\<lambda>bs. bs) (larvae b1 ! 0) b1 = (1, b2) \<and>
      self b2 = [[], [NewTransition 0x41 0 True]]"
    by auto
  let ?H = "\<lambda>bs :: byte list. take 1 bs"
  let ?ws = "[[0x41, 0x41], [0x42, 0x43 :: byte]]"
  have "sorted_wrt (<) ?ws" "[] \<notin> set ?ws" by simp_all
  from FromChannel_runs [OF this, of ?H]
  obtain c c1 where crun: "FromChannel_loop ?H ?ws init_builder = Inr c"
    "makeSuffixStates ?H 0 c = Inr c1"
    by (elim exE conjE)
  obtain i c2 where ms: "makeState ?H (larvae c1 ! 0) c1 = (i, c2)"
    by (cases "makeState ?H (larvae c1 ! 0) c1")
  have ne: "int i \<noteq> int (length (self c2)) - 1"
    using FromChannel_panics [OF crun ms] panic by (auto split: if_splits)
  from start_state_placement [of "[]", where ?'a = "byte list" and ?'b = "byte list"
      and ?'c = "byte list", THEN conjunct2, THEN conjunct2, rule_format, of ?H ?ws c c1 i c2]
    crun ms ne
  have "FromChannel ?H ?ws = Inl (UnexpectedStartID (int i) (int (length (self c2)) - 1))"
    by (simp only: simp_thms)
  then have other: "\<exists>b b1 i b2. FromChannel_loop ?H ?ws init_builder = Inr b \<and>
      makeSuffixStates ?H 0 b = Inr b1 \<and> makeState ?H (larvae b1 ! 0) b1 = (i, b2) \<and>
      int i \<noteq> int (length (self b2)) - 1 \<and>
      FromChannel ?H ?ws = Inl (UnexpectedStartID (int i) (int (length (self b2)) - 1))"
    using crun ms ne by (intro exI conjI)
  let ?big = "[replicate (2 ^ 23) 0x41, [0x42 :: byte]]"
  have g: "sorted_wrt (<) ?big \<and> [] \<notin> set ?big"
    by (rule two_values_valid) simp_all
  have g3: "state_count (\<lambda>bs. bs) ?big = 2 ^ 23"
    by (rule state_count_two_values [OF inj_Fingerprint [OF inj_id_bytes]]) simp_all
  have g4: "sum_list (map length ?big) = 2 ^ 23 + 1" by simp
  have "sorted_wrt (<) ?big \<and> [] \<notin> set ?big \<and> state_count (\<lambda>bs. bs) ?big \<le> 2 ^ 23"
    using g g3 by (simp only: simp_thms order_refl)
  from start_state_placement [of ?big, where ?'a = "byte list" and ?'b = "byte list"
      and ?'c = "byte list", THEN conjunct1, THEN mp, OF this]
  obtain r where r: "FromChannel (\<lambda>bs. bs) ?big = Inr r"
    and all: "\<forall>H :: byte list \<Rightarrow> byte list. inj_on (Fingerprint H) (set r) \<longrightarrow>
      (\<exists>b b1. FromChannel_loop H ?big init_builder = Inr b \<and>
         makeSuffixStates H 0 b = Inr b1 \<and>
         fst (makeState H (larvae b1 ! 0) b1) = length (self b1) \<and>
         length (self b1) = length r - 1 \<and>
         FromChannel H ?big = Inr r \<and> Start r = Inr (larvae b1 ! 0))"
    by (elim exE conjE)
  have "inj_on (Fingerprint (\<lambda>bs :: byte list. bs)) (set r)"
    using inj_Fingerprint [OF inj_id_bytes] by (rule inj_on_subset) simp
  from all [rule_format, OF this] r
  have big: "\<exists>r b b1. FromChannel (\<lambda>bs. bs) ?big = Inr r \<and>
      FromChannel_loop (\<lambda>bs. bs) ?big init_builder = Inr b \<and>
      makeSuffixStates (\<lambda>bs. bs) 0 b = Inr b1 \<and>
      fst (makeState (\<lambda>bs. bs) (larvae b1 ! 0) b1) = length (self b1) \<and>
      length (self b1) = length r - 1 \<and> Start r = Inr (larvae b1 ! 0)"
    by (elim exE conjE) (intro exI conjI; assumption)
  show ?thesis using h run free st panic other small g g3 g4 big by (simp only: simp_thms)
qed

text \<open>
  The bound on the states is needed here too: from the single value of
  \<open>2 ^ 23 + 2\<close> bytes \<open>A\<close>, with \<open>2 ^ 23 + 2\<close> states before the start state, the root
  is \<open>[A \<rightarrow> 1]\<close> after the reduction of \<open>2 ^ 23 + 1\<close> to 23 bits, the state already
  interned at index 2, and the builder panics.
\<close>

theorem start_state_capacity_counterexample:
  "sorted_wrt (<) [replicate (2 ^ 23 + 2) (0x41 :: byte)] \<and>
   [] \<notin> set [replicate (2 ^ 23 + 2) (0x41 :: byte)] \<and>
   state_count (\<lambda>bs. bs) [replicate (2 ^ 23 + 2) (0x41 :: byte)] = 2 ^ 23 + 2 \<and>
   FromChannel (\<lambda>bs. bs) [replicate (2 ^ 23 + 2) 0x41] = Inl (UnexpectedStartID 2 (2 ^ 23 + 1))"
proof -
  have "replicate (2 ^ 23 + 2) (0x41 :: byte) \<noteq> []" by (simp del: replicate.simps)
  moreover have "state_count (\<lambda>bs. bs) [replicate (2 ^ 23 + 2) (0x41 :: byte)] = 2 ^ 23 + 2"
    by (rule state_count_single [OF inj_Fingerprint [OF inj_id_bytes]]) simp_all
  ultimately show ?thesis
    using FromChannel_single_panic [OF inj_Fingerprint [OF inj_id_bytes], of "0x41"]
    by (simp del: replicate.simps)
qed

section \<open>Streams cut short\<close>

text \<open>
  Every proper prefix of the bytes that \<^const>\<open>WriteTo\<close> produces makes \<^const>\<open>ReadFrom\<close>
  return an error, \<^verbatim>\<open>io.EOF\<close> or \<^verbatim>\<open>io.ErrUnexpectedEOF\<close>.
\<close>

lemma length_encoded_state: "length (concat (map put_uint32 st)) = 4 * length st"
  by (induction st) (simp_all add: length_put_uint32)

lemma read_transitions_short:
  "length r < 4 * n \<Longrightarrow> \<exists>e. read_transitions n r acc = Inl e"
proof (induction n arbitrary: r acc)
  case 0
  then show ?case by simp
next
  case (Suc n)
  show ?case
  proof (cases "4 \<le> length r")
    case False
    then show ?thesis by (simp add: ReadFull_def)
  next
    case True
    then have "ReadFull 4 r = Inr (take 4 r, drop 4 r)" by (simp add: ReadFull_def)
    moreover have "length (drop 4 r) < 4 * n" using Suc.prems True by simp
    ultimately show ?thesis using Suc.IH [of "drop 4 r"] by simp
  qed
qed

lemma read_states_short:
  "\<forall>st \<in> set m. length st \<le> 255 \<Longrightarrow>
   k < length (concat (map (\<lambda>st. word_of_nat (length st) # concat (map put_uint32 st)) m)) \<Longrightarrow>
   \<exists>r e. read_states (length m)
     (take k (concat (map (\<lambda>st. word_of_nat (length st) # concat (map put_uint32 st)) m))) done
   = (r, Some e)"
proof (induction m arbitrary: k "done")
  case Nil
  then show ?case by simp
next
  case (Cons st m)
  let ?body = "concat (map (\<lambda>st. word_of_nat (length st) # concat (map put_uint32 st)) m)"
  let ?enc = "concat (map put_uint32 st)"
  let ?b = "word_of_nat (length st) :: byte"
  have len: "unat ?b = length st"
    using Cons.prems(1) by (simp add: unat_byte_of_length)
  have enc: "length ?enc = 4 * length st" by (rule length_encoded_state)
  show ?case
  proof (cases k)
    case 0
    then show ?thesis by (simp add: ReadFull_def)
  next
    case (Suc k')
    have k': "k' < length ?enc + length ?body" using Cons.prems(2) Suc by simp
    have rf: "ReadFull (Suc 0) (?b # take k' (?enc @ ?body)) = Inr ([?b], take k' (?enc @ ?body))"
      by (simp add: ReadFull_def)
    show ?thesis
    proof (cases "k' < 4 * length st")
      case True
      have "length (take k' (?enc @ ?body)) < 4 * length st" using True k' by simp
      from read_transitions_short [OF this, of "[]"]
      obtain e where "read_transitions (length st) (take k' (?enc @ ?body)) [] = Inl e" by blast
      then show ?thesis using Suc rf len by simp
    next
      case False
      then have tk: "take k' (?enc @ ?body) = ?enc @ take (k' - 4 * length st) ?body"
        using enc by simp
      have rt: "read_transitions (length st) (?enc @ take (k' - 4 * length st) ?body) []
          = Inr ([] @ st, take (k' - 4 * length st) ?body)"
        by (rule read_transitions_encoded)
      have "k' - 4 * length st < length ?body" using False k' enc by simp
      moreover have "\<forall>st \<in> set m. length st \<le> 255" using Cons.prems(1) by simp
      ultimately obtain r e where
        "read_states (length m) (take (k' - 4 * length st) ?body) (done @ [st]) = (r, Some e)"
        using Cons.IH [of "k' - 4 * length st" "done @ [st]"] by blast
      then show ?thesis using Suc rf len tk rt by simp
    qed
  qed
qed

lemma ReadFrom_truncated:
  assumes "length m < 2 ^ 31" and "\<forall>st \<in> set m. length st \<le> 255"
    and "k < length (WriteTo m [])"
  shows "\<exists>r e. ReadFrom (take k (WriteTo m [])) = Inr (r, Some e)"
proof -
  let ?body = "concat (map (\<lambda>st. word_of_nat (length st) # concat (map put_uint32 st)) m)"
  let ?n = "put_uint32 (word_of_nat (length m))"
  have w: "WriteTo m [] = serializationPrefix @ ?n @ ?body"
    by (simp add: WriteTo_def WriteTo_loop_append)
  have l6: "length serializationPrefix = 6" by (simp add: serializationPrefix_def)
  have l4: "length ?n = 4" by (rule length_put_uint32)
  consider "k < 6" | "6 \<le> k" "k < 10" | "10 \<le> k" by linarith
  then show ?thesis
  proof cases
    case 1
    then have "length (take k (WriteTo m [])) < 6" by simp
    then show ?thesis by (simp add: ReadFrom_def ReadFull_def l6)
  next
    case 2
    have tk: "take k (WriteTo m []) = serializationPrefix @ take (k - 6) (?n @ ?body)"
      using 2 l6 by (simp add: w)
    have "ReadFull (length serializationPrefix) (serializationPrefix @ take (k - 6) (?n @ ?body))
        = Inr (serializationPrefix, take (k - 6) (?n @ ?body))"
      by (rule ReadFull_append) simp
    moreover have "length (take (k - 6) (?n @ ?body)) < 4" using 2 by simp
    then have "\<exists>e. ReadFull 4 (take (k - 6) (?n @ ?body)) = Inl e"
      by (simp add: ReadFull_def)
    ultimately show ?thesis unfolding tk by (auto simp add: ReadFrom_def)
  next
    case 3
    have tk: "take k (WriteTo m []) = serializationPrefix @ ?n @ take (k - 10) ?body"
      using 3 l6 l4 by (simp add: w)
    have r1: "ReadFull (length serializationPrefix) (serializationPrefix @ ?n @ take (k - 10) ?body)
        = Inr (serializationPrefix, ?n @ take (k - 10) ?body)"
      by (rule ReadFull_append) simp
    have r2: "ReadFull 4 (?n @ take (k - 10) ?body) = Inr (?n, take (k - 10) ?body)"
      by (rule ReadFull_append) (rule l4)
    have "k - 10 < length ?body" using assms(3) 3 l6 l4 by (simp add: w)
    from read_states_short [OF assms(2) this, of "[]"]
    obtain r e where "read_states (length m) (take (k - 10) ?body) [] = (r, Some e)" by blast
    then show ?thesis
      unfolding tk using r1 r2 assms(1) by (simp add: ReadFrom_def get_put_uint32 sint_of_length)
  qed
qed

section \<open>Lookup by trigger\<close>

text \<open>
  \<^verbatim>\<open>sort.Search\<close> on a predicate that stays true once it is true returns the least
  index where it holds, so that in an ordered state \<^const>\<open>IndexForTrigger\<close> finds the
  transition of a trigger.
\<close>

lemma Search_loop_least:
  "(\<And>x y. x \<le> y \<Longrightarrow> y < n \<Longrightarrow> f x \<Longrightarrow> f y) \<Longrightarrow> i \<le> j \<Longrightarrow> j \<le> n \<Longrightarrow>
     (\<forall>k < i. \<not> f k) \<Longrightarrow> (\<forall>k. j \<le> k \<and> k < n \<longrightarrow> f k) \<Longrightarrow>
     Search_loop f i j \<le> n \<and> (\<forall>k < Search_loop f i j. \<not> f k) \<and>
     (\<forall>k. Search_loop f i j \<le> k \<and> k < n \<longrightarrow> f k)"
proof (induction f i j rule: Search_loop.induct)
  case (1 f i j)
  note mono = "1.prems"(1) and ij = "1.prems"(2) and jn = "1.prems"(3)
    and lo = "1.prems"(4) and hi = "1.prems"(5)
  show ?case
  proof (cases "i < j")
    case False
    then have "Search_loop f i j = i" by (subst Search_loop.simps) simp
    moreover have "i = j" using False ij by simp
    ultimately show ?thesis using jn lo hi by simp
  next
    case True
    let ?h = "(i + j) div 2"
    have h: "i \<le> ?h" "?h < j" using True by auto
    show ?thesis
    proof (cases "f ?h")
      case fh: True
      have eq: "Search_loop f i j = Search_loop f i ?h"
        using True fh by (subst Search_loop.simps) (simp add: Let_def)
      have nn: "\<not> \<not> f ?h" using fh by simp
      have "Search_loop f i ?h \<le> n \<and> (\<forall>k < Search_loop f i ?h. \<not> f k) \<and>
          (\<forall>k. Search_loop f i ?h \<le> k \<and> k < n \<longrightarrow> f k)"
      proof (rule "1.IH"(2) [OF True refl nn])
        show "f y" if "x \<le> y" "y < n" "f x" for x y using mono [OF that] .
        show "i \<le> ?h" using h(1) .
        show "?h \<le> n" using h(2) jn by linarith
        show "\<forall>k < i. \<not> f k" using lo .
        show "\<forall>k. ?h \<le> k \<and> k < n \<longrightarrow> f k"
        proof (intro allI impI)
          fix k assume "?h \<le> k \<and> k < n"
          then show "f k" using mono [of ?h k] fh by blast
        qed
      qed
      then show ?thesis unfolding eq .
    next
      case nfh: False
      have eq: "Search_loop f i j = Search_loop f (?h + 1) j"
        using True nfh by (subst Search_loop.simps) (simp add: Let_def)
      have "Search_loop f (?h + 1) j \<le> n \<and> (\<forall>k < Search_loop f (?h + 1) j. \<not> f k) \<and>
          (\<forall>k. Search_loop f (?h + 1) j \<le> k \<and> k < n \<longrightarrow> f k)"
      proof (rule "1.IH"(1) [OF True refl nfh])
        show "f y" if "x \<le> y" "y < n" "f x" for x y using mono [OF that] .
        show "?h + 1 \<le> j" using h(2) by linarith
        show "j \<le> n" using jn .
        show "\<forall>k. j \<le> k \<and> k < n \<longrightarrow> f k" using hi .
        show "\<forall>k < ?h + 1. \<not> f k"
        proof (intro allI impI)
          fix k assume "k < ?h + 1"
          then have "k \<le> ?h" "?h < n" using h(2) jn by linarith+
          then show "\<not> f k" using mono [of k ?h] nfh by blast
        qed
      qed
      then show ?thesis unfolding eq .
    qed
  qed
qed

lemma orderedD:
  "ordered st \<Longrightarrow> i < j \<Longrightarrow> j < length st \<Longrightarrow> Trigger (st ! i) < Trigger (st ! j)"
  unfolding ordered_def by (rule sorted_wrt_nth_less)

lemma ordered_unique:
  assumes "ordered st" and "i < length st" and "j < length st"
    and "Trigger (st ! i) = Trigger (st ! j)"
  shows "i = j"
proof (rule ccontr)
  assume "i \<noteq> j"
  then consider "i < j" | "j < i" by linarith
  then show False
    using orderedD [OF assms(1), of i j] orderedD [OF assms(1), of j i] assms(2-) by cases auto
qed

lemma IndexForTrigger_hit:
  "IndexForTrigger st v < length st \<Longrightarrow> Trigger (st ! IndexForTrigger st v) = v"
  by (simp add: IndexForTrigger_def Let_def split: if_splits)

lemma IndexForTrigger_found:
  assumes ord: "ordered st" and i: "i < length st"
  shows "IndexForTrigger st (Trigger (st ! i)) = i"
proof -
  let ?v = "Trigger (st ! i)"
  let ?f = "\<lambda>x. ?v \<le> Trigger (st ! x)"
  let ?r = "Search_loop ?f 0 (length st)"
  have "?r \<le> length st \<and> (\<forall>k < ?r. \<not> ?f k) \<and> (\<forall>k. ?r \<le> k \<and> k < length st \<longrightarrow> ?f k)"
  proof (rule Search_loop_least)
    fix x y assume xy: "x \<le> y" "y < length st" "?v \<le> Trigger (st ! x)"
    show "?v \<le> Trigger (st ! y)"
    proof (cases "x = y")
      case True
      then show ?thesis using xy(3) by simp
    next
      case False
      then have "Trigger (st ! x) < Trigger (st ! y)" using orderedD [OF ord, of x y] xy by simp
      then show ?thesis using xy(3) by simp
    qed
  qed auto
  then have r: "\<And>k. k < ?r \<Longrightarrow> \<not> ?f k" "\<And>k. ?r \<le> k \<Longrightarrow> k < length st \<Longrightarrow> ?f k"
    by blast+
  have "\<not> i < ?r" using r(1) [of i] by auto
  moreover have "\<not> ?r < i"
  proof
    assume lt: "?r < i"
    then have "?v \<le> Trigger (st ! ?r)" using r(2) [of ?r] i by simp
    moreover have "Trigger (st ! ?r) < ?v" using orderedD [OF ord lt i] .
    ultimately show False by simp
  qed
  ultimately have "?r = i" by linarith
  then show ?thesis using i by (simp add: IndexForTrigger_def Search_def Let_def)
qed

section \<open>Recognition of the prefixes of the stored sequences\<close>

text \<open>
  Along a prefix of a stored sequence every byte has a transition, the loop of
  \<^const>\<open>Recognizes\<close> never breaks, and the result is membership.
\<close>

lemma seqs_nonempty: "w \<in> set (seqs n m st) \<Longrightarrow> w \<noteq> []"
  by (cases n) auto

lemma seqs_Cons_iff:
  assumes ord: "ordered st" and i: "i < length st"
  shows "Trigger (st ! i) # w \<in> set (seqs (Suc n) m st) \<longleftrightarrow>
     (w = [] \<and> IsTerminal (st ! i)) \<or> w \<in> set (seqs n m (m ! nat (ToState (st ! i))))"
    (is "?L \<longleftrightarrow> ?R")
proof
  assume ?L
  then obtain t where t: "t \<in> set st" "Trigger t = Trigger (st ! i)"
    "w \<in> set ((if IsTerminal t then [[]] else []) @ seqs n m (m ! nat (ToState t)))"
    by auto
  then obtain j where j: "j < length st" "t = st ! j" by (auto simp add: in_set_conv_nth)
  then have "j = i" using ordered_unique [OF ord _ i] t(2) by simp
  then show ?R using t(3) j by (auto split: if_splits)
next
  assume ?R
  moreover have "st ! i \<in> set st" using i by simp
  ultimately show ?L by (auto intro!: bexI [of _ "st ! i"])
qed

lemma Recognizes_loop_prefix:
  assumes wf: "wf_Recognizer m" and ords: "list_all ordered m"
  shows "ordered st \<Longrightarrow> below (length m) st \<Longrightarrow> x \<noteq> [] \<Longrightarrow> x @ z \<in> set (seqs n m st) \<Longrightarrow>
     \<exists>t. Recognizes_loop m x st tran = Inr t \<and> (IsTerminal t \<longleftrightarrow> x \<in> set (seqs n m st))"
proof (induction n arbitrary: x st tran)
  case 0
  then show ?case by simp
next
  case (Suc n)
  obtain a x' where x: "x = a # x'" using Suc.prems(3) by (cases x) auto
  from Suc.prems(4) obtain t where t: "t \<in> set st" "Trigger t = a" 
    by (auto simp add: x)
  then obtain i where i: "i < length st" "t = st ! i" by (auto simp add: in_set_conv_nth)
  have a: "a = Trigger (st ! i)" using t(2) i(2) by simp
  let ?nx = "m ! nat (ToState (st ! i))"
  have found: "IndexForTrigger st a = i"
    unfolding a using IndexForTrigger_found [OF Suc.prems(1) i(1)] .
  have k: "nat (ToState (st ! i)) < length m"
    using belowD [OF Suc.prems(2) t(1)] i(2) by simp
  have step: "Recognizes_loop m x st tran = Recognizes_loop m x' ?nx (st ! i)"
    using found i(1) k by (simp add: x Let_def)
  have mem: "(x' @ z = [] \<and> IsTerminal (st ! i)) \<or> x' @ z \<in> set (seqs n m ?nx)"
    using Suc.prems(4) seqs_Cons_iff [OF Suc.prems(1) i(1), of "x' @ z" n m] by (simp add: x a)
  have xin: "x \<in> set (seqs (Suc n) m st) \<longleftrightarrow>
      (x' = [] \<and> IsTerminal (st ! i)) \<or> x' \<in> set (seqs n m ?nx)"
    unfolding x a using seqs_Cons_iff [OF Suc.prems(1) i(1)] .
  show ?case
  proof (cases "x' = []")
    case True
    have "[] \<notin> set (seqs n m ?nx)" using seqs_nonempty by blast
    then show ?thesis using step True xin by simp
  next
    case False
    then have in': "x' @ z \<in> set (seqs n m ?nx)" using mem by simp
    have o: "ordered ?nx" using ords k by (simp add: list_all_iff)
    have b: "below (length m) ?nx"
      using wf_RecognizerD [OF wf k] k by (auto intro: below_mono)
    from Suc.IH [OF o b False in', of "st ! i"] obtain t' where
      "Recognizes_loop m x' ?nx (st ! i) = Inr t'" "IsTerminal t' \<longleftrightarrow> x' \<in> set (seqs n m ?nx)"
      by blast
    then show ?thesis using step xin False by simp
  qed
qed

subsection \<open>The builder keeps its states ordered\<close>

lemma ordered_Nil: "ordered []"
  by (simp add: ordered_def)

lemma ordered_snoc:
  "ordered l \<Longrightarrow> (\<And>s. s \<in> set l \<Longrightarrow> Trigger s < Trigger t) \<Longrightarrow> ordered (l @ [t])"
  by (simp add: ordered_def sorted_wrt_append)

lemma makeState_ordered:
  assumes "all_ordered b" and "ordered st" and "makeState H st b = (i, b1)"
  shows "all_ordered b1"
  using assms by (auto simp add: makeState_def Let_def all_ordered_def split: option.splits)

lemma makeSuffixStates_from_ordered:
  assumes inj: "inj (Fingerprint H)"
  shows "binv H W i b \<Longrightarrow> all_ordered b \<Longrightarrow> makeSuffixStates_from H p i b = Inr b' \<Longrightarrow>
     length (self b') \<le> 2 ^ 23 \<Longrightarrow> all_ordered b'"
proof (induction i arbitrary: b)
  case 0
  then show ?case by simp
next
  case (Suc j)
  show ?case
  proof (cases "p < Suc j")
    case False
    then show ?thesis using Suc.prems(2,3) by simp
  next
    case True
    have sh: "shape b" and jle: "Suc j \<le> length (prevValue b)"
      using binvD(1,2) [OF Suc.prems(1)] by simp_all
    then have guard: "Suc j < length (larvae b) \<and> Suc j < length (terminals b) \<and>
        j < length (prevValue b)"
      by (simp add: shape_def)
    obtain i b1 where ms: "makeState H (larvae b ! Suc j) b = (i, b1)"
      by (cases "makeState H (larvae b ! Suc j) b")
    note keep = makeState_shape [OF ms]
    let ?t = "NewTransition (prevValue b1 ! j) (int i) (terminals b1 ! Suc j)"
    let ?b2 = "b1\<lparr>larvae := (larvae b1)[j := AddTransition (larvae b1 ! j) ?t]\<rparr>"
    have run: "makeSuffixStates_from H p j ?b2 = Inr b'"
      using Suc.prems(3) True guard ms by simp
    have "length (self ?b2) \<le> length (self b')"
      using run by (rule makeSuffixStates_from_length)
    then have cap1: "length (self b1) \<le> 2 ^ 23" using Suc.prems(4) by simp
    have inv2: "binv H W j ?b2" using binv_step [OF inj cap1 Suc.prems(1) ms] .
    have "ordered (larvae b ! Suc j)"
      using Suc.prems(2) guard by (simp add: all_ordered_def list_all_iff)
    from makeState_ordered [OF Suc.prems(2) this ms]
    have o1: "all_ordered b1" .
    have lj: "ordered (larvae b1 ! j)"
      using o1 guard keep by (simp add: all_ordered_def list_all_iff)
    have tr: "Trigger s < Trigger ?t" if "s \<in> set (larvae b1 ! j)" for s
      using binvD(5) [OF Suc.prems(1), of j s] that keep by (simp add: Trigger_NewTransition)
    then have "\<forall>s \<in> set (larvae b1 ! j). s < ?t"
      by (auto intro: Trigger_less_imp_less)
    then have add: "AddTransition (larvae b1 ! j) ?t = larvae b1 ! j @ [?t]"
      by (rule AddTransition_append)
    have "ordered (larvae b1 ! j @ [?t])" using lj tr by (rule ordered_snoc)
    then have "list_all ordered ((larvae b1)[j := AddTransition (larvae b1 ! j) ?t])"
      unfolding add using o1 set_update_subset_insert [of "larvae b1" j "larvae b1 ! j @ [?t]"]
      by (auto simp add: all_ordered_def list_all_iff)
    then have "all_ordered ?b2" using o1 by (simp add: all_ordered_def)
    then show ?thesis using Suc.IH [OF inv2 _ run Suc.prems(4)] by simp
  qed
qed

lemma addValue_ordered:
  assumes inj: "inj (Fingerprint H)"
    and inv: "binv H W (length (prevValue b)) b" and ord: "all_ordered b"
    and run: "addValue H v b = Inr b'" and cap: "length (self b') \<le> 2 ^ 23"
  shows "all_ordered b'"
proof -
  let ?p = "commonPrefixLen (prevValue b) v"
  from run obtain b1 where b1: "makeSuffixStates_from H ?p (length (prevValue b)) b = Inr b1"
    by (auto simp add: addValue_def makeSuffixStates_def Let_def split: if_splits sum.splits)
  have fields: "self b' = self b1 \<and>
      larvae b' = take (?p + 1) (larvae b1) @ replicate (length v - ?p) []"
    using run b1 by (auto simp add: addValue_def makeSuffixStates_def Let_def split: if_splits)
  then have cap1: "length (self b1) \<le> 2 ^ 23" using cap by simp
  have o1: "all_ordered b1" using makeSuffixStates_from_ordered [OF inj inv ord b1 cap1] .
  have "list_all ordered (take (?p + 1) (larvae b1) @ replicate (length v - ?p) [])"
    using o1 by (auto simp add: all_ordered_def list_all_iff ordered_Nil dest: in_set_takeD)
  then show ?thesis using o1 fields by (simp add: all_ordered_def)
qed

lemma FromChannel_loop_ordered:
  assumes inj: "inj (Fingerprint H)"
  shows "binv H W (length (prevValue b)) b \<Longrightarrow> sorted_wrt (<) (prevValue b # vs) \<Longrightarrow>
     length (self b') \<le> 2 ^ 23 \<Longrightarrow> all_ordered b \<Longrightarrow>
     FromChannel_loop H vs b = Inr b' \<Longrightarrow> all_ordered b'"
proof (induction vs arbitrary: W b)
  case Nil
  then show ?case by simp
next
  case (Cons v vs)
  have lt: "prevValue b < v" using Cons.prems(2) by simp
  obtain b1 where b1: "addValue H v b = Inr b1" and rest: "FromChannel_loop H vs b1 = Inr b'"
    using Cons.prems(5) by (auto split: sum.splits)
  have "length (self b1) \<le> length (self b')" using rest by (rule FromChannel_loop_length)
  then have cap1: "length (self b1) \<le> 2 ^ 23" using Cons.prems(3) by simp
  have i1: "binv H (W @ [v]) (length v) b1" "prevValue b1 = v"
    using addValue_binv [OF inj Cons.prems(1) lt b1 cap1] by simp_all
  have o1: "all_ordered b1" using addValue_ordered [OF inj Cons.prems(1,4) b1 cap1] .
  have "binv H (W @ [v]) (length (prevValue b1)) b1" using i1 by simp
  moreover have "sorted_wrt (<) (prevValue b1 # vs)" using Cons.prems(2) i1(2) by simp
  ultimately show ?case using Cons.IH [of "W @ [v]" b1] Cons.prems(3) o1 rest by blast
qed

lemma FromChannel_ordered:
  assumes inj: "inj H" and asc: "sorted_wrt (<) vs" and ne: "[] \<notin> set vs"
    and cap: "state_count H vs \<le> 2 ^ 23"
    and loop: "FromChannel_loop H vs init_builder = Inr b"
    and suffix: "makeSuffixStates H 0 b = Inr b1"
  shows "list_all ordered (self b1 @ [larvae b1 ! 0])"
proof -
  note injF = inj_Fingerprint [OF inj]
  note s0 = sorted_from_init [OF asc ne, where ?'a = 'a]
  have i0: "binv H [] (length (prevValue (init_builder :: 'a builder))) init_builder"
    using binv_init [of H] by (simp add: init_builder_def)
  have o0: "all_ordered (init_builder :: 'a builder)"
    by (simp add: init_builder_def all_ordered_def ordered_Nil)
  have run: "makeSuffixStates_from H 0 (length (prevValue b)) b = Inr b1"
    using suffix by (simp add: makeSuffixStates_def)
  have cap1: "length (self b1) \<le> 2 ^ 23"
    using cap loop suffix by (simp add: state_count_def)
  then have cap0: "length (self b) \<le> 2 ^ 23"
    using makeSuffixStates_from_length [OF run] by simp
  have inv: "binv H vs (length (prevValue b)) b"
    using FromChannel_loop_binv [OF injF i0 s0 loop cap0] by simp
  have ob: "all_ordered b"
    using FromChannel_loop_ordered [OF injF i0 s0 cap0 o0 loop] .
  have o1: "all_ordered b1"
    using makeSuffixStates_from_ordered [OF injF inv ob run cap1] .
  have "binv H vs 0 b1"
    using makeSuffixStates_from_binv [OF injF inv _ run cap1] by simp
  then have "shape b1" by (rule binvD(1))
  then have "0 < length (larvae b1)" by (simp add: shape_def)
  then have "larvae b1 ! 0 \<in> set (larvae b1)" by simp
  then show ?thesis using o1 by (simp add: all_ordered_def list_all_iff)
qed

lemma Recognizes_prefix_of_member:
  assumes asc: "sorted_wrt (<) vs" and ne: "[] \<notin> set vs"
    and cap: "state_count (\<lambda>bs. bs) vs \<le> 2 ^ 23"
  shows "\<exists>r. FromChannel (\<lambda>bs. bs) vs = Inr r \<and>
     (\<forall>x z. x @ z \<in> set vs \<longrightarrow> Recognizes r x = Inr (x \<in> set vs))"
proof -
  obtain b b1 :: "byte list builder" where r:
    "FromChannel_loop (\<lambda>bs. bs) vs init_builder = Inr b" "makeSuffixStates (\<lambda>bs. bs) 0 b = Inr b1"
    "FromChannel (\<lambda>bs. bs) vs = Inr (self b1 @ [larvae b1 ! 0])"
    "wf_Recognizer (self b1 @ [larvae b1 ! 0])" "lang (self b1) (larvae b1 ! 0) = vs"
    using FromChannel_correct [OF inj_id_bytes asc ne cap] by blast
  let ?m = "self b1" and ?root = "larvae b1 ! 0"
  let ?r = "?m @ [?root]"
  have ords: "list_all ordered ?r"
    using FromChannel_ordered [OF inj_id_bytes asc ne cap r(1,2)] .
  have wf: "wf_Recognizer ?m"
    using r(4) by (simp add: wf_Recognizer_def list_all_iff nth_append)
  have bel: "below (length ?m) ?root"
    using wf_RecognizerD [OF r(4), of "length ?m"] by simp
  have bel': "below (length ?r) ?root" using bel by (rule below_mono) simp
  have oroot: "ordered ?root" using ords by simp
  have sq: "seqs (Suc (length ?m)) ?r ?root = vs"
    using seqs_extend [OF wf bel] r(5) by (simp add: lang_def)
  have st: "Start ?r = Inr ?root" by (simp add: Start_def)
  have "Recognizes ?r x = Inr (x \<in> set vs)" if mem: "x @ z \<in> set vs" for x z
  proof (cases "x = []")
    case True
    then show ?thesis using ne st by (simp add: Recognizes_def IsTerminal_0)
  next
    case False
    have "x @ z \<in> set (seqs (Suc (length ?m)) ?r ?root)" using mem sq by simp
    from Recognizes_loop_prefix [OF r(4) ords oroot bel' False this, of 0]
    obtain t where "Recognizes_loop ?r x ?root 0 = Inr t"
      "IsTerminal t \<longleftrightarrow> x \<in> set (seqs (Suc (length ?m)) ?r ?root)"
      by blast
    then have "Recognizes_loop ?r x ?root 0 = Inr t" "IsTerminal t \<longleftrightarrow> x \<in> set vs"
      by (simp_all only: sq)
    then show ?thesis using st by (simp add: Recognizes_def)
  qed
  then show ?thesis using r(3) by blast
qed

section \<open>Length windows\<close>

text \<open>
  With a maximum of at least 1 the first frame is within the window, and the enumeration
  under a length window is the enumeration filtered by length.
\<close>

lemma dfs_window:
  assumes lg: "IsLargeEnough con = (\<lambda>n. mn \<le> n)" and sm: "IsSmallEnough con = (\<lambda>n. n \<le> mx)"
    and va: "IsValueAllowed con = (\<lambda>_ _. True)" and sa: "IsSequenceAllowed con = (\<lambda>_. True)"
  shows "int (length pre) + 1 \<le> mx \<Longrightarrow>
     dfs n m con pre st =
     filter (\<lambda>w. mn \<le> int (length w) \<and> int (length w) \<le> mx) (map ((@) pre) (seqs n m st))"
proof (induction n arbitrary: pre st)
  case 0
  then show ?case by simp
next
  case (Suc n)
  let ?P = "\<lambda>w :: byte list. mn \<le> int (length w) \<and> int (length w) \<le> mx"
  have key: "(if IsTerminal t \<and> mn \<le> int (length pre) + 1 then [pre @ [Trigger t]] else []) @
        (if \<not> IsEmpty (m ! nat (ToState t)) \<and> int (length pre) + 2 \<le> mx
         then dfs n m con (pre @ [Trigger t]) (m ! nat (ToState t)) else []) =
        filter ?P (map ((@) pre) (map ((#) (Trigger t))
          ((if IsTerminal t then [[]] else []) @ seqs n m (m ! nat (ToState t)))))" for t
  proof -
    let ?nx = "m ! nat (ToState t)"
    have first: "(if IsTerminal t \<and> mn \<le> int (length pre) + 1 then [pre @ [Trigger t]] else []) =
        filter ?P (map ((@) pre) (map ((#) (Trigger t)) (if IsTerminal t then [[]] else [])))"
      using Suc.prems by simp
    have second: "(if \<not> IsEmpty ?nx \<and> int (length pre) + 2 \<le> mx
         then dfs n m con (pre @ [Trigger t]) ?nx else []) =
        filter ?P (map ((@) pre) (map ((#) (Trigger t)) (seqs n m ?nx)))"
    proof (cases "int (length pre) + 2 \<le> mx")
      case True
      have "dfs n m con (pre @ [Trigger t]) ?nx =
          filter ?P (map ((@) (pre @ [Trigger t])) (seqs n m ?nx))"
      proof (rule Suc.IH)
        show "int (length (pre @ [Trigger t])) + 1 \<le> mx" using True by simp
      qed
      moreover have "map ((@) (pre @ [Trigger t])) (seqs n m ?nx) =
          map ((@) pre) (map ((#) (Trigger t)) (seqs n m ?nx))"
        by simp
      ultimately have "dfs n m con (pre @ [Trigger t]) ?nx =
          filter ?P (map ((@) pre) (map ((#) (Trigger t)) (seqs n m ?nx)))"
        by (simp only:)
      moreover have "filter ?P (map ((@) pre) (map ((#) (Trigger t)) (seqs n m ?nx))) = []"
        if "IsEmpty ?nx"
        using that by (simp add: IsEmpty_def seqs_Nil)
      ultimately show ?thesis using True by (cases "IsEmpty ?nx") (simp_all only: if_True if_False simp_thms)
    next
      case False
      have "\<not> ?P (pre @ Trigger t # w)" if "w \<in> set (seqs n m ?nx)" for w
        using seqs_nonempty [OF that] False by (cases w) auto
      then have "filter ?P (map ((@) pre) (map ((#) (Trigger t)) (seqs n m ?nx))) = []"
        by (auto simp add: filter_empty_conv)
      then show ?thesis using False by simp
    qed
    show ?thesis using first second by (simp only: map_append filter_append)
  qed
  have "dfs (Suc n) m con pre st =
      concat (map (\<lambda>t. (if IsTerminal t \<and> mn \<le> int (length pre) + 1 then [pre @ [Trigger t]] else []) @
        (if \<not> IsEmpty (m ! nat (ToState t)) \<and> int (length pre) + 2 \<le> mx
         then dfs n m con (pre @ [Trigger t]) (m ! nat (ToState t)) else [])) st)"
    by (simp add: lg sm va sa)
  also have "\<dots> = concat (map (\<lambda>t. filter ?P (map ((@) pre) (map ((#) (Trigger t))
          ((if IsTerminal t then [[]] else []) @ seqs n m (m ! nat (ToState t)))))) st)"
    by (simp only: key)
  also have "\<dots> = filter ?P (map ((@) pre) (seqs (Suc n) m st))"
    by (simp add: map_concat filter_concat comp_def)
  finally show ?case .
qed

lemma ConstrainedSequences_window:
  assumes asc: "sorted_wrt (<) vs" and ne: "[] \<notin> set vs"
    and cap: "state_count (\<lambda>bs. bs) vs \<le> 2 ^ 23" and mx: "1 \<le> mx"
    and lg: "IsLargeEnough con = (\<lambda>n. mn \<le> n)" and sm: "IsSmallEnough con = (\<lambda>n. n \<le> mx)"
    and va: "IsValueAllowed con = (\<lambda>_ _. True)" and sa: "IsSequenceAllowed con = (\<lambda>_. True)"
  shows "\<exists>r. FromChannel (\<lambda>bs. bs) vs = Inr r \<and>
     ConstrainedSequences r con =
       Some (Inr (filter (\<lambda>w. mn \<le> int (length w) \<and> int (length w) \<le> mx) vs))"
proof -
  obtain b1 :: "byte list builder" where r: "FromChannel (\<lambda>bs. bs) vs = Inr (self b1 @ [larvae b1 ! 0])"
    "wf_Recognizer (self b1 @ [larvae b1 ! 0])" "lang (self b1) (larvae b1 ! 0) = vs"
    using FromChannel_correct [OF inj_id_bytes asc ne cap] by blast
  let ?m = "self b1" and ?root = "larvae b1 ! 0"
  have wf: "wf_Recognizer ?m"
    using r(2) by (simp add: wf_Recognizer_def list_all_iff nth_append)
  have bel: "below (length ?m) ?root"
    using wf_RecognizerD [OF r(2), of "length ?m"] by simp
  have "ConstrainedSequences (?m @ [?root]) con =
      Some (Inr (dfs (Suc (length ?m)) (?m @ [?root]) con [] ?root))"
    using ConstrainedSequences_dfs [OF r(2), of con] by simp
  also have "dfs (Suc (length ?m)) (?m @ [?root]) con [] ?root =
      filter (\<lambda>w. mn \<le> int (length w) \<and> int (length w) \<le> mx)
        (map ((@) []) (seqs (Suc (length ?m)) (?m @ [?root]) ?root))"
    using mx by (intro dfs_window [OF lg sm va sa]) simp
  also have "seqs (Suc (length ?m)) (?m @ [?root]) ?root = vs"
    using seqs_extend [OF wf bel] r(3) by (simp add: lang_def)
  finally show ?thesis using r(1) by (simp only: map_append_Nil) blast
qed

end
